theory Spec2Isabelle
  imports Main "HOL-Library.Sublist" "HOL-Library.List_Lexorder" "HOL-Library.AList"
begin

section \<open>Python strings\<close>

text \<open>
  A Python \<^verbatim>\<open>str\<close> is a sequence of Unicode code points, so a string is modelled as a
  list of code points (natural numbers), not as a list of bytes: the section labels of
  \<^verbatim>\<open>QA_Log_Summarizer.py\<close> start with an emoji, which is one element of the string, and
  \<^verbatim>\<open>str.strip()\<close> removes non-ASCII white space as well. Strings compare
  lexicographically by code point (\<^verbatim>\<open>List_Lexorder\<close>).
\<close>

type_synonym pystr = "nat list"

definition lit :: "string \<Rightarrow> pystr" where
  "lit s = map of_char s"

text \<open>\<^verbatim>\<open>str.isspace\<close> on one code point: the white space that \<^verbatim>\<open>str.strip()\<close> removes.\<close>

definition isspace :: "nat \<Rightarrow> bool" where
  "isspace c =
     (c \<in> set [9, 10, 11, 12, 13, 28, 29, 30, 31, 32, 133, 160, 5760,
                8232, 8233, 8239, 8287, 12288]
      \<or> (8192 \<le> c \<and> c \<le> 8202))"

text \<open>
  The class \<^verbatim>\<open>\d\<close> of a \<^verbatim>\<open>str\<close> pattern is the Unicode decimal digits (category Nd),
  which come in runs of ten starting at the code points below (Unicode 14); 48 is the
  ASCII digit zero.
\<close>

definition decimal_zeros :: "nat list" where
  "decimal_zeros =
     [48, 1632, 1776, 1984, 2406, 2534, 2662, 2790, 2918, 3046, 3174, 3302, 3430, 3558,
      3664, 3792, 3872, 4160, 4240, 6112, 6160, 6470, 6608, 6784, 6800, 6992, 7088, 7232,
      7248, 42528, 43216, 43264, 43472, 43504, 43600, 44016, 65296, 66720, 68912, 69734,
      69872, 69942, 70096, 70384, 70736, 70864, 71248, 71360, 71472, 71904, 72016, 72784,
      73040, 73120, 92768, 92864, 93008, 120782, 120792, 120802, 120812, 120822, 123200,
      123632, 125264, 130032]"

definition isdigit :: "nat \<Rightarrow> bool" where
  "isdigit c = list_ex (\<lambda>z. z \<le> c \<and> c < z + 10) decimal_zeros"

text \<open>\<^verbatim>\<open>s.strip()\<close> and \<^verbatim>\<open>s.strip(chars)\<close>: drop from both ends while the character qualifies.\<close>

definition strip_while :: "(nat \<Rightarrow> bool) \<Rightarrow> pystr \<Rightarrow> pystr" where
  "strip_while p s = rev (dropWhile p (rev (dropWhile p s)))"

definition strip :: "pystr \<Rightarrow> pystr" where
  "strip s = strip_while isspace s"

definition strip_chars :: "pystr \<Rightarrow> pystr \<Rightarrow> pystr" where
  "strip_chars chars s = strip_while (\<lambda>c. c \<in> set chars) s"

text \<open>\<^verbatim>\<open>s.split(sep)\<close> for a one-character separator: never empty, \<^verbatim>\<open>"".split(sep) == [""]\<close>.\<close>

fun split_char :: "nat \<Rightarrow> pystr \<Rightarrow> pystr list" where
  "split_char sep [] = [[]]"
| "split_char sep (c # cs) =
     (if c = sep then [] # split_char sep cs
      else (case split_char sep cs of
              [] \<Rightarrow> [[c]]
            | l # ls \<Rightarrow> (c # l) # ls))"

text \<open>\<^verbatim>\<open>sep.join(xs)\<close>.\<close>

fun join :: "pystr \<Rightarrow> pystr list \<Rightarrow> pystr" where
  "join sep [] = []"
| "join sep [x] = x"
| "join sep (x # y # ys) = x @ sep @ join sep (y # ys)"

section \<open>Errors and the dictionary of sections\<close>

datatype error = OSError | UnicodeDecodeError | KeyError

text \<open>
  A \<^verbatim>\<open>dict\<close> keeps its keys in insertion order: an association list. Assigning to a key
  that exists keeps its place (\<^const>\<open>AList.update\<close>); \<^verbatim>\<open>d[k]\<close> raises
  \<^verbatim>\<open>KeyError\<close> on a missing key.
\<close>

type_synonym sections = "(pystr \<times> pystr list) list"

definition getitem :: "sections \<Rightarrow> pystr \<Rightarrow> error + pystr list" where
  "getitem d k = (case map_of d k of None \<Rightarrow> Inl KeyError | Some v \<Rightarrow> Inr v)"

definition bind :: "error + 'a \<Rightarrow> ('a \<Rightarrow> error + 'b) \<Rightarrow> error + 'b" where
  "bind r f = (case r of Inl e \<Rightarrow> Inl e | Inr v \<Rightarrow> f v)"

section \<open>The five section names\<close>

definition tasks_done :: pystr where
  "tasks_done = 9989 # lit '' Tasks Done''"

definition bugs_found :: pystr where
  "bugs_found = 128027 # lit '' Bugs Found''"

definition fixes_verified :: pystr where
  "fixes_verified = 128736 # lit '' Fixes Verified''"

definition observations :: pystr where
  "observations = 128200 # lit '' Observations''"

definition next_steps :: pystr where
  "next_steps = 128257 # lit '' Next Steps''"

definition section_names :: "pystr list" where
  "section_names = [tasks_done, bugs_found, fixes_verified, observations, next_steps]"

section \<open>\<^verbatim>\<open>find_latest_log\<close>\<close>

text \<open>
  \<^verbatim>\<open>glob.glob("QA_Log_*.md")\<close> keeps the names of the current directory that the pattern
  matches: the literal \<^verbatim>\<open>QA_Log_\<close>, then anything, then the literal \<^verbatim>\<open>.md\<close> at the end
  (case-sensitive, as on POSIX). The directory is a parameter: its names, in the order
  the system lists them.
\<close>

definition fnmatch_QA_Log :: "pystr \<Rightarrow> bool" where
  "fnmatch_QA_Log name =
     (prefix (lit ''QA_Log_'') name \<and> suffix (lit ''.md'') (drop 7 name))"

definition glob_QA_Log :: "pystr list \<Rightarrow> pystr list" where
  "glob_QA_Log entries = filter fnmatch_QA_Log entries"

text \<open>
  \<^verbatim>\<open>files.sort(reverse=True)\<close>: descending order. Equal strings are the same value, so
  the order among equal elements cannot be seen.
\<close>

definition sort_reverse :: "pystr list \<Rightarrow> pystr list" where
  "sort_reverse files = rev (sort files)"

definition find_latest_log :: "pystr list \<Rightarrow> pystr option" where
  "find_latest_log entries =
     (let files = glob_QA_Log entries in
      if files = [] then None
      else (case sort_reverse files of [] \<Rightarrow> None | f # _ \<Rightarrow> Some f))"

section \<open>\<^verbatim>\<open>parse_log\<close>\<close>

text \<open>
  The pattern of a section is \<^verbatim>\<open>### <escaped name>\n(.*?)(?=\n###|\Z)\<close> under
  \<^verbatim>\<open>re.DOTALL\<close>. Its literal head is \<^const>\<open>lit\<close> \<open>''### ''\<close>, the name and a newline;
  the lazy group then takes the fewest characters such that \<^verbatim>\<open>\n###\<close> or the end of the
  text follows, which always exists. \<^verbatim>\<open>re.search\<close> tries the positions from the left, so
  the match is at the first occurrence of the head.
\<close>

definition heading :: "pystr \<Rightarrow> pystr" where
  "heading section_name = lit ''### '' @ section_name @ [10]"

fun lazy_group :: "pystr \<Rightarrow> pystr" where
  "lazy_group [] = []"
| "lazy_group (c # cs) =
     (if prefix (10 # lit ''###'') (c # cs) then [] else c # lazy_group cs)"

fun search_section :: "pystr \<Rightarrow> pystr \<Rightarrow> pystr option" where
  "search_section section_name [] = None"
| "search_section section_name (c # cs) =
     (if prefix (heading section_name) (c # cs)
      then Some (lazy_group (drop (length (heading section_name)) (c # cs)))
      else search_section section_name cs)"

definition placeholder :: "pystr \<Rightarrow> pystr" where
  "placeholder section_name = lit ''No data provided for '' @ section_name"

text \<open>
  The list comprehension
  \<^verbatim>\<open>[line.strip("- ").strip() for line in match.group(1).strip().split("\n") if line.strip()]\<close>.
\<close>

definition block_lines :: "pystr \<Rightarrow> pystr list" where
  "block_lines block =
     map (\<lambda>line. strip (strip_chars (lit ''- '') line))
       (filter (\<lambda>line. strip line \<noteq> []) (split_char 10 (strip block)))"

definition section_content :: "pystr \<Rightarrow> pystr \<Rightarrow> pystr list" where
  "section_content content section_name =
     (case search_section section_name content of
        Some block \<Rightarrow>
          (let lines = block_lines block in
           if lines \<noteq> [] then lines else [placeholder section_name])
      | None \<Rightarrow> [placeholder section_name])"

text \<open>
  The loop over \<^verbatim>\<open>sections.keys()\<close> assigns to each key of the dictionary, which starts
  with the five names mapped to empty lists.
\<close>

definition initial_sections :: sections where
  "initial_sections = map (\<lambda>section_name. (section_name, [])) section_names"

definition parse_content :: "pystr \<Rightarrow> sections" where
  "parse_content content =
     foldl (\<lambda>sections section_name.
              AList.update section_name (section_content content section_name) sections)
       initial_sections (map fst initial_sections)"

text \<open>
  Opening and reading the file is a parameter: \<open>read_file path\<close> is the decoded text
  that \<^verbatim>\<open>f.read()\<close> returns, or the exception that \<^verbatim>\<open>open\<close> or the UTF-8 decoder raises.
\<close>

definition parse_log :: "(pystr \<Rightarrow> error + pystr) \<Rightarrow> pystr \<Rightarrow> error + sections" where
  "parse_log read_file file_path =
     (case read_file file_path of
        Inl e \<Rightarrow> Inl e
      | Inr content \<Rightarrow> Inr (parse_content content))"

section \<open>\<^verbatim>\<open>extract_date_from_filename\<close>\<close>

text \<open>
  The pattern \<^verbatim>\<open>QA_Log_(\d{4}-\d{2}-\d{2})\.md\<close> has one way to match at a position;
  \<^verbatim>\<open>re.search\<close> returns the leftmost match. The clock is a parameter: \<open>today\<close> is the
  string that \<^verbatim>\<open>datetime.today().strftime('%Y-%m-%d')\<close> gives.
\<close>

definition date_shape :: "pystr \<Rightarrow> bool" where
  "date_shape d =
     (length d = 10 \<and> list_all isdigit (take 4 d) \<and> d ! 4 = 45 \<and>
      list_all isdigit (take 2 (drop 5 d)) \<and> d ! 7 = 45 \<and>
      list_all isdigit (drop 8 d))"

definition match_date_here :: "pystr \<Rightarrow> pystr option" where
  "match_date_here s =
     (let d = take 10 (drop 7 s) in
      if prefix (lit ''QA_Log_'') s \<and> date_shape d \<and> prefix (lit ''.md'') (drop 17 s)
      then Some d else None)"

fun search_date :: "pystr \<Rightarrow> pystr option" where
  "search_date [] = None"
| "search_date (c # cs) =
     (case match_date_here (c # cs) of
        Some d \<Rightarrow> Some d
      | None \<Rightarrow> search_date cs)"

definition extract_date_from_filename :: "pystr \<Rightarrow> pystr \<Rightarrow> pystr" where
  "extract_date_from_filename today filename =
     (case search_date filename of Some d \<Rightarrow> d | None \<Rightarrow> today)"

section \<open>\<^verbatim>\<open>generate_report\<close>\<close>

definition list_block :: "pystr list \<Rightarrow> pystr" where
  "list_block items = join [10] (map (\<lambda>item. lit ''- '' @ item) items)"

definition report_text :: "pystr \<Rightarrow> pystr \<Rightarrow> pystr \<Rightarrow> pystr \<Rightarrow> pystr \<Rightarrow> pystr" where
  "report_text date key_takeaways bugs progress_summary next =
     lit ''### '' @ [128227] @ lit '' Project Update: '' @ date @ [10, 10] @
     lit ''#### '' @ [128273] @ lit '' Key Takeaways'' @ [10] @ key_takeaways @ [10, 10] @
     lit ''#### '' @ [128027] @ lit '' Bugs Found'' @ [10] @ bugs @ [10, 10] @
     lit ''#### '' @ [128202] @ lit '' Progress Summary'' @ [10] @ progress_summary @ [10, 10] @
     lit ''#### '' @ [128257] @ lit '' Next Steps'' @ [10] @ next @ [10]"

definition generate_report :: "sections \<Rightarrow> pystr \<Rightarrow> error + pystr" where
  "generate_report sections date =
     bind (getitem sections tasks_done) (\<lambda>td.
     bind (getitem sections fixes_verified) (\<lambda>fv.
     bind (getitem sections observations) (\<lambda>ob.
     bind (getitem sections fixes_verified) (\<lambda>fv'.
     bind (getitem sections observations) (\<lambda>ob'.
     bind (getitem sections next_steps) (\<lambda>next.
     bind (getitem sections bugs_found) (\<lambda>bugs.
       Inr (report_text date (list_block (td @ fv @ ob)) (list_block bugs)
              (list_block (fv' @ ob')) (list_block next)))))))))"

section \<open>\<^verbatim>\<open>main\<close>\<close>

text \<open>
  The result of \<^verbatim>\<open>main\<close> is what it has written to standard output when it returns
  normally (\<^verbatim>\<open>print\<close> appends a newline), or the exception that leaves it.
  \<^verbatim>\<open>not log_file\<close> holds for \<^verbatim>\<open>None\<close> and for the empty string.
\<close>

definition no_file_message :: pystr where
  "no_file_message = 10060 # lit '' No QA_Log_*.md file found in this directory.''"

definition main :: "pystr \<Rightarrow> pystr list \<Rightarrow> (pystr \<Rightarrow> error + pystr) \<Rightarrow> error + pystr" where
  "main today entries read_file =
     (case find_latest_log entries of
        None \<Rightarrow> Inr (no_file_message @ [10])
      | Some log_file \<Rightarrow>
          if log_file = [] then Inr (no_file_message @ [10])
          else
            bind (parse_log read_file log_file) (\<lambda>sections.
            bind (generate_report sections (extract_date_from_filename today log_file)) (\<lambda>report.
              Inr (report @ [10]))))"

section \<open>Notions of the specification\<close>

text \<open>The file name holds \<^verbatim>\<open>QA_Log_<d>.md\<close> at position \<open>i\<close>, where \<open>d\<close> has the shape of a date.\<close>

definition embedded_date :: "pystr \<Rightarrow> nat \<Rightarrow> pystr \<Rightarrow> bool" where
  "embedded_date filename i d =
     (date_shape d \<and> prefix (lit ''QA_Log_'' @ d @ lit ''.md'') (drop i filename))"

text \<open>The heading of a section stands in the text after \<open>pre\<close> and before \<open>rest\<close>, and at no
  earlier position.\<close>

definition first_heading :: "pystr \<Rightarrow> pystr \<Rightarrow> pystr \<Rightarrow> pystr \<Rightarrow> bool" where
  "first_heading content section_name pre rest =
     (content = pre @ heading section_name @ rest \<and>
      list_all (\<lambda>i. \<not> prefix (heading section_name) (drop i content)) [0..<length pre])"

text \<open>One line of a bulleted block of the report or of a log.\<close>

definition bullet :: "pystr \<Rightarrow> pystr" where
  "bullet item = lit ''- '' @ item"

text \<open>A well-formed log, for the round trip through the parser. An item of a bullet line is
  clean when it is not empty, has no newline, neither begins nor ends with a character that
  the strips of the parser remove (a dash or white space), and does not end with the text
  of one of the five headings.\<close>

definition strippable :: "nat \<Rightarrow> bool" where
  "strippable c = (c = 45 \<or> isspace c)"

definition clean_item :: "pystr \<Rightarrow> bool" where
  "clean_item item =
     (item \<noteq> [] \<and> 10 \<notin> set item \<and>
      \<not> strippable (hd item) \<and> \<not> strippable (last item) \<and>
      list_all (\<lambda>section_name. \<not> suffix (lit ''### '' @ section_name) item) section_names)"

text \<open>The lines under a heading are bullet lines \<^verbatim>\<open>- <item>\<close> and blank lines (white space
  only, possibly empty).\<close>

datatype entry = Bullet pystr | Blank pystr

fun entry_line :: "entry \<Rightarrow> pystr" where
  "entry_line (Bullet item) = bullet item"
| "entry_line (Blank w) = w"

fun entry_ok :: "entry \<Rightarrow> bool" where
  "entry_ok (Bullet item) = clean_item item"
| "entry_ok (Blank w) = (list_all isspace w \<and> 10 \<notin> set w)"

fun bullet_items :: "entry list \<Rightarrow> pystr list" where
  "bullet_items [] = []"
| "bullet_items (Bullet item # entries) = item # bullet_items entries"
| "bullet_items (Blank w # entries) = bullet_items entries"

text \<open>Any other line of the log (a title, free text, a heading that is not one of the five):
  a line that does not end with the text of one of the five headings.\<close>

definition other_line :: "pystr \<Rightarrow> bool" where
  "other_line l =
     (10 \<notin> set l \<and>
      list_all (\<lambda>section_name. \<not> suffix (lit ''### '' @ section_name) l) section_names)"

text \<open>A section of the log: the heading of one of the five names, its bullet and blank lines
  with at least one bullet, and then possibly other lines up to the next of the five
  headings, the first of which begins with \<^verbatim>\<open>###\<close> (so that it closes the section).\<close>

definition section_ok :: "pystr \<times> entry list \<times> pystr list \<Rightarrow> bool" where
  "section_ok = (\<lambda>(section_name, entries, others).
     section_name \<in> set section_names \<and>
     list_all entry_ok entries \<and> bullet_items entries \<noteq> [] \<and>
     list_all other_line others \<and> (others = [] \<or> prefix (lit ''###'') (hd others)))"

definition section_lines :: "pystr \<times> entry list \<times> pystr list \<Rightarrow> pystr list" where
  "section_lines = (\<lambda>(section_name, entries, others).
     (lit ''### '' @ section_name) # map entry_line entries @ others)"

text \<open>The text of the log: the lines before the first section and the lines of the sections,
  separated by newlines. The text ends with a newline exactly when its last line is empty.\<close>

definition document :: "pystr list \<Rightarrow> (pystr \<times> entry list \<times> pystr list) list \<Rightarrow> pystr" where
  "document preamble secs = join [10] (preamble @ concat (map section_lines secs))"

text \<open>The template of the report, as its lines.\<close>

definition report_lines ::
  "pystr \<Rightarrow> pystr list \<Rightarrow> pystr list \<Rightarrow> pystr list \<Rightarrow> pystr list \<Rightarrow> pystr list" where
  "report_lines date key_takeaways bugs progress_summary next =
     [lit ''### '' @ [128227] @ lit '' Project Update: '' @ date,
      [],
      lit ''#### '' @ [128273] @ lit '' Key Takeaways''] @ map bullet key_takeaways @
     [[],
      lit ''#### '' @ [128027] @ lit '' Bugs Found''] @ map bullet bugs @
     [[],
      lit ''#### '' @ [128202] @ lit '' Progress Summary''] @ map bullet progress_summary @
     [[],
      lit ''#### '' @ [128257] @ lit '' Next Steps''] @ map bullet next"

text \<open>Sample values for the examples below.\<close>

definition example_log :: sections where
  "example_log =
     [(tasks_done, [lit ''Wrote tests'']),
      (bugs_found, [lit ''Crash on save'', lit ''Typo in UI'']),
      (fixes_verified, [lit ''Login fixed'']),
      (observations, [lit ''Slow start'']),
      (next_steps, [lit ''Fix crash'', lit ''Ship''])]"

definition example_text :: pystr where
  "example_text =
     heading bugs_found @ lit ''- Crash on save'' @ [10] @ lit ''- Typo in UI'' @ [10] @
     heading next_steps @ lit ''  '' @ [10]"

definition repeated_text :: pystr where
  "repeated_text =
     lit ''intro'' @ [10] @ heading tasks_done @ lit ''- a'' @ [10] @ lit ''- b'' @ [10] @
     heading bugs_found @ lit ''- x'' @ [10] @ heading tasks_done @ lit ''- later''"

text \<open>A log with a title, blank lines, a section of another heading and no final newline,
  its sections out of order; and a text whose bullets hold what the parser strips or searches.\<close>

definition example_preamble :: "pystr list" where
  "example_preamble = [lit ''# QA log 2024-03-01'', []]"

definition example_secs :: "(pystr \<times> entry list \<times> pystr list) list" where
  "example_secs =
     [(bugs_found,
       [Blank [], Bullet (lit ''Crash on save''), Blank (lit ''  ''),
        Bullet (lit ''Typo in UI''), Blank []],
       []),
      (tasks_done, [Bullet (lit ''Wrote tests'')], [lit ''### Notes'', lit ''free text'']),
      (fixes_verified, [Bullet (lit ''Login fixed'')], []),
      (observations, [Bullet (lit ''Slow start'')], []),
      (next_steps, [Bullet (lit ''Fix crash''), Bullet (lit ''Ship'')], [])]"

definition crossed_text :: pystr where
  "crossed_text =
     heading bugs_found @
       lit ''- crash in ### '' @ tasks_done @ [10] @
       lit ''- typo -'' @ [10] @
     heading tasks_done @ lit ''- t'' @ [10] @
     heading fixes_verified @ lit ''- -5 fixed'' @ [10] @
     heading observations @ lit ''- o  '' @ [10] @
     heading next_steps @ lit ''-   n'' @ [10]"

section \<open>The section names are five different strings\<close>

lemma section_names_distinct: "distinct section_names"
  by (simp add: section_names_def tasks_done_def bugs_found_def fixes_verified_def
      observations_def next_steps_def)

lemma section_names_neq:
  "tasks_done \<noteq> bugs_found" "tasks_done \<noteq> fixes_verified" "tasks_done \<noteq> observations"
  "tasks_done \<noteq> next_steps" "bugs_found \<noteq> fixes_verified" "bugs_found \<noteq> observations"
  "bugs_found \<noteq> next_steps" "fixes_verified \<noteq> observations" "fixes_verified \<noteq> next_steps"
  "observations \<noteq> next_steps"
  using section_names_distinct by (simp_all add: section_names_def)

lemma section_names_mem:
  "tasks_done \<in> set section_names" "bugs_found \<in> set section_names"
  "fixes_verified \<in> set section_names" "observations \<in> set section_names"
  "next_steps \<in> set section_names"
  by (simp_all add: section_names_def)

section \<open>Stripping and splitting\<close>

lemma first_heading_iff:
  "first_heading content section_name pre rest \<longleftrightarrow>
     content = pre @ heading section_name @ rest \<and>
     (\<forall>i < length pre. \<not> prefix (heading section_name) (drop i content))"
  by (auto simp: first_heading_def list_all_iff)

subsection \<open>Stripping\<close>

lemma strip_while_Nil_iff: "strip_while p s = [] \<longleftrightarrow> (\<forall>c \<in> set s. p c)"
proof
  assume "strip_while p s = []"
  then have a: "\<forall>c \<in> set (dropWhile p s). p c"
    by (simp add: strip_while_def)
  have "dropWhile p s = []"
  proof (rule ccontr)
    assume ne: "dropWhile p s \<noteq> []"
    then have "\<not> p (hd (dropWhile p s))" by (rule hd_dropWhile)
    moreover from ne have "hd (dropWhile p s) \<in> set (dropWhile p s)" by simp
    ultimately show False using a by blast
  qed
  then show "\<forall>c \<in> set s. p c" by simp
next
  assume "\<forall>c \<in> set s. p c"
  then show "strip_while p s = []"
    by (auto simp: strip_while_def dest: set_dropWhileD)
qed

lemma strip_while_id:
  assumes "s \<noteq> []" "\<not> p (hd s)" "\<not> p (last s)"
  shows "strip_while p s = s"
proof -
  from assms have "dropWhile p s = s" by (simp add: dropWhile_eq_self_iff)
  moreover from assms have "dropWhile p (rev s) = rev s"
    by (simp add: dropWhile_eq_self_iff hd_rev)
  ultimately show ?thesis by (simp add: strip_while_def)
qed

lemma strip_while_around:
  assumes "\<forall>c \<in> set pre. p c" "\<forall>c \<in> set post. p c"
    and "core \<noteq> []" "\<not> p (hd core)" "\<not> p (last core)"
  shows "strip_while p (pre @ core @ post) = core"
proof -
  from assms(1,3,4) have "dropWhile p (pre @ core @ post) = core @ post"
    by (cases core) simp_all
  moreover have "dropWhile p (rev post @ rev core) = rev core"
  proof -
    from assms(2) have "dropWhile p (rev post @ rev core) = dropWhile p (rev core)"
      by (intro dropWhile_append2) simp
    also from assms(3,5) have "\<dots> = rev core"
      by (simp add: dropWhile_eq_self_iff hd_rev)
    finally show ?thesis .
  qed
  ultimately show ?thesis by (simp add: strip_while_def)
qed

lemma strip_while_idem: "strip_while p (strip_while p s) = strip_while p s"
proof (cases "strip_while p s = []")
  case True
  show ?thesis unfolding True by (simp add: strip_while_def)
next
  case False
  let ?t = "strip_while p s"
  have r: "rev ?t = dropWhile p (rev (dropWhile p s))" by (simp add: strip_while_def)
  with False have "\<not> p (hd (rev ?t))"
    by (metis hd_dropWhile rev_is_Nil_conv)
  with False have l: "\<not> p (last ?t)" by (simp add: hd_rev)
  have ne: "dropWhile p s \<noteq> []"
  proof
    assume "dropWhile p s = []"
    then have "strip_while p s = []" by (simp only: strip_while_def dropWhile.simps rev.simps)
    with False show False by contradiction
  qed
  have "suffix (rev ?t) (rev (dropWhile p s))"
    unfolding r by (rule suffix_dropWhile)
  then have "prefix ?t (dropWhile p s)"
    by (simp add: suffix_to_prefix)
  with False have "hd ?t = hd (dropWhile p s)"
    by (auto simp: prefix_def)
  with ne have h: "\<not> p (hd ?t)" by (simp add: hd_dropWhile)
  from False h l show ?thesis by (rule strip_while_id)
qed

lemma strip_Nil_iff: "strip s = [] \<longleftrightarrow> list_all isspace s"
  by (simp add: strip_def strip_while_Nil_iff list_all_iff)

subsection \<open>Splitting\<close>

lemma split_char_nonempty: "split_char sep s \<noteq> []"
  by (induction s) (auto split: list.splits)

lemma split_char_Cons:
  "split_char sep (c # cs) =
     (if c = sep then [] # split_char sep cs
      else (c # hd (split_char sep cs)) # tl (split_char sep cs))"
  using split_char_nonempty[of sep cs] by (cases "split_char sep cs") simp_all

lemma split_char_no_sep: "sep \<notin> set s \<Longrightarrow> split_char sep s = [s]"
  by (induction s) auto

lemma split_char_line:
  "sep \<notin> set l \<Longrightarrow> split_char sep (l @ sep # rest) = l # split_char sep rest"
  by (induction l) auto

lemma hd_split_char_prefix: "prefix (hd (split_char sep s)) s"
  by (induction s) (simp_all add: split_char_Cons del: split_char.simps(2))

section \<open>Properties of the locator\<close>

lemma fnmatch_QA_Log_iff:
  "fnmatch_QA_Log name \<longleftrightarrow> prefix (lit ''QA_Log_'') name \<and> suffix (lit ''.md'') name"
proof (cases "prefix (lit ''QA_Log_'') name")
  case False
  then show ?thesis by (simp add: fnmatch_QA_Log_def)
next
  case True
  then obtain r where r: "name = lit ''QA_Log_'' @ r"
    by (auto simp: prefix_def)
  have len: "length (lit ''QA_Log_'') = 7"
    by (simp add: lit_def)
  have "suffix (lit ''.md'') (lit ''QA_Log_'' @ r) \<longleftrightarrow> suffix (lit ''.md'') r"
  proof
    assume "suffix (lit ''.md'') (lit ''QA_Log_'' @ r)"
    then consider "suffix (lit ''.md'') r"
      | xs where "lit ''.md'' = xs @ r" "suffix xs (lit ''QA_Log_'')"
      by (auto simp: suffix_append)
    then show "suffix (lit ''.md'') r"
    proof cases
      case 1
      then show ?thesis .
    next
      case 2
      show ?thesis
      proof (cases "xs = []")
        case True
        with 2 show ?thesis by simp
      next
        case False
        from 2(2) obtain zs where zs: "lit ''QA_Log_'' = zs @ xs"
          by (auto simp: suffix_def)
        have "last (lit ''QA_Log_'') = 95"
          by (simp add: lit_def)
        with zs False have "last xs = 95"
          by simp
        moreover from False have "last xs \<in> set xs"
          by simp
        then have "last xs \<in> set (lit ''.md'')"
          using 2(1) by simp
        ultimately show ?thesis by (simp add: lit_def)
      qed
    qed
  next
    assume "suffix (lit ''.md'') r"
    then show "suffix (lit ''.md'') (lit ''QA_Log_'' @ r)"
      by (rule suffix_appendI)
  qed
  with True r len show ?thesis
    by (simp add: fnmatch_QA_Log_def)
qed

lemma hd_sort_reverse:
  assumes "files \<noteq> []"
  shows "\<exists>rest. sort_reverse files = Max (set files) # rest"
proof -
  have "rev (sort files) \<noteq> []"
    using assms by (simp add: sort_key_def[symmetric] del: sort_key_simps) (metis length_0_conv length_sort)
  then obtain m rest where mr: "rev (sort files) = m # rest"
    by (cases "rev (sort files)") auto
  then have s: "sort files = rev rest @ [m]"
    by (simp add: rev_swap)
  have "sorted (rev rest @ [m])"
    using sorted_sort[of files] by (simp only: s)
  then have le: "\<forall>x \<in> set rest. x \<le> m"
    by (auto simp: sorted_append)
  have st: "set files = insert m (set rest)"
    using arg_cong[OF s, of set] by simp
  have "Max (set files) = m"
  proof (rule Max_eqI)
    show "finite (set files)" by simp
    show "m \<in> set files" using st by simp
    fix y assume "y \<in> set files"
    with st le show "y \<le> m" by auto
  qed
  with mr show ?thesis
    by (simp add: sort_reverse_def)
qed

text \<open>
  Claim C2. Whatever names the directory holds, \<^const>\<open>find_latest_log\<close> considers exactly
  those with the prefix \<^verbatim>\<open>QA_Log_\<close> and the suffix \<^verbatim>\<open>.md\<close>; when there is none it
  returns \<^verbatim>\<open>None\<close>, and otherwise the greatest of them in the lexicographic order of
  the whole names.
\<close>

theorem find_latest_log_greatest:
  "find_latest_log entries =
     (if \<exists>f \<in> set entries. prefix (lit ''QA_Log_'') f \<and> suffix (lit ''.md'') f
      then Some (Max {f \<in> set entries. prefix (lit ''QA_Log_'') f \<and> suffix (lit ''.md'') f})
      else None)"
proof -
  have set_glob: "set (glob_QA_Log entries) =
      {f \<in> set entries. prefix (lit ''QA_Log_'') f \<and> suffix (lit ''.md'') f}"
    by (auto simp: glob_QA_Log_def fnmatch_QA_Log_iff)
  show ?thesis
  proof (cases "glob_QA_Log entries = []")
    case True
    with set_glob have "\<not> (\<exists>f \<in> set entries. prefix (lit ''QA_Log_'') f \<and> suffix (lit ''.md'') f)"
      by auto
    with True show ?thesis by (simp add: find_latest_log_def)
  next
    case False
    then have "set (glob_QA_Log entries) \<noteq> {}"
      by simp
    then have ex: "\<exists>f \<in> set entries. prefix (lit ''QA_Log_'') f \<and> suffix (lit ''.md'') f"
      unfolding set_glob by blast
    from hd_sort_reverse[OF False] obtain rest
      where "sort_reverse (glob_QA_Log entries) = Max (set (glob_QA_Log entries)) # rest" ..
    with False ex show ?thesis
      by (simp add: find_latest_log_def set_glob Let_def)
  qed
qed

theorem find_latest_log_greatest_witness:
  "find_latest_log [lit ''QA_Log_2024-01-01.md'', lit ''notes.txt'', lit ''QA_Log_2024-02-15.md'']
     = Some (lit ''QA_Log_2024-02-15.md'')
   \<and> find_latest_log [lit ''notes.txt''] = None"
proof -
  have "{f \<in> set [lit ''QA_Log_2024-01-01.md'', lit ''notes.txt'', lit ''QA_Log_2024-02-15.md''].
           prefix (lit ''QA_Log_'') f \<and> suffix (lit ''.md'') f}
        = {lit ''QA_Log_2024-01-01.md'', lit ''QA_Log_2024-02-15.md''}"
    by (auto simp: lit_def suffix_to_prefix)
  moreover have "Max {lit ''QA_Log_2024-01-01.md'', lit ''QA_Log_2024-02-15.md''} = lit ''QA_Log_2024-02-15.md''"
    by (simp add: lit_def)
  ultimately have "find_latest_log [lit ''QA_Log_2024-01-01.md'', lit ''notes.txt'', lit ''QA_Log_2024-02-15.md'']
     = Some (lit ''QA_Log_2024-02-15.md'')"
    using find_latest_log_greatest [of "[lit ''QA_Log_2024-01-01.md'', lit ''notes.txt'', lit ''QA_Log_2024-02-15.md'']"]
    by (simp add: lit_def suffix_to_prefix)
  moreover have "find_latest_log [lit ''notes.txt''] = None"
    using find_latest_log_greatest [of "[lit ''notes.txt'']"]
    by (simp add: lit_def suffix_to_prefix)
  ultimately show ?thesis by simp
qed

section \<open>Properties of the date extractor\<close>

lemma date_shape_length: "date_shape d \<Longrightarrow> length d = 10"
  by (simp add: date_shape_def)

lemma match_date_here_iff: "match_date_here s = Some d \<longleftrightarrow> embedded_date s 0 d"
proof
  assume "match_date_here s = Some d"
  then have p: "prefix (lit ''QA_Log_'') s" and d: "d = take 10 (drop 7 s)"
    and sh: "date_shape d" and m: "prefix (lit ''.md'') (drop 17 s)"
    by (auto simp: match_date_here_def Let_def split: if_splits)
  from p obtain r where r: "s = lit ''QA_Log_'' @ r"
    by (auto simp: prefix_def)
  have l7: "length (lit ''QA_Log_'') = 7" by (simp add: lit_def)
  from r l7 d have dr: "d = take 10 r" by simp
  from r l7 m have "prefix (lit ''.md'') (drop 10 r)" by simp
  then obtain post where "drop 10 r = lit ''.md'' @ post"
    by (auto simp: prefix_def)
  then have "r = d @ lit ''.md'' @ post"
    using dr by (metis append_take_drop_id)
  with r sh show "embedded_date s 0 d"
    by (simp add: embedded_date_def)
next
  assume "embedded_date s 0 d"
  then obtain post where sh: "date_shape d" and s: "s = lit ''QA_Log_'' @ d @ lit ''.md'' @ post"
    by (auto simp: embedded_date_def prefix_def)
  have l7: "length (lit ''QA_Log_'') = 7" by (simp add: lit_def)
  from sh have l10: "length d = 10" by (rule date_shape_length)
  from s l7 l10 sh show "match_date_here s = Some d"
    by (simp add: match_date_here_def)
qed

lemma embedded_date_Nil: "\<not> embedded_date [] i d"
  by (simp add: embedded_date_def lit_def)

lemma embedded_date_Suc: "embedded_date (c # cs) (Suc i) d = embedded_date cs i d"
  by (simp add: embedded_date_def)

lemma embedded_date_unique: "embedded_date s i d \<Longrightarrow> embedded_date s i d' \<Longrightarrow> d = d'"
proof -
  assume a: "embedded_date s i d" and b: "embedded_date s i d'"
  then have "length d = length d'"
    by (simp add: embedded_date_def date_shape_length)
  moreover from a b obtain p p' where "drop i s = lit ''QA_Log_'' @ d @ p" "drop i s = lit ''QA_Log_'' @ d' @ p'"
    by (auto simp: embedded_date_def prefix_def)
  ultimately show ?thesis by simp
qed

lemma search_date_None: "search_date s = None \<longleftrightarrow> (\<forall>i d. \<not> embedded_date s i d)"
proof (induction s)
  case Nil
  then show ?case by (simp add: embedded_date_Nil)
next
  case (Cons c cs)
  show ?case
  proof (cases "match_date_here (c # cs)")
    case None
    then have no0: "\<forall>d. \<not> embedded_date (c # cs) 0 d"
      by (simp add: match_date_here_iff[symmetric])
    have "(\<forall>i d. \<not> embedded_date (c # cs) i d) \<longleftrightarrow> (\<forall>i d. \<not> embedded_date cs i d)"
    proof
      assume "\<forall>i d. \<not> embedded_date (c # cs) i d"
      then show "\<forall>i d. \<not> embedded_date cs i d"
        by (metis embedded_date_Suc)
    next
      assume h: "\<forall>i d. \<not> embedded_date cs i d"
      show "\<forall>i d. \<not> embedded_date (c # cs) i d"
      proof (intro allI)
        fix i d show "\<not> embedded_date (c # cs) i d"
          using no0 h by (cases i) (simp_all add: embedded_date_Suc)
      qed
    qed
    with None Cons.IH show ?thesis by simp
  next
    case (Some d)
    then have "embedded_date (c # cs) 0 d" by (simp add: match_date_here_iff)
    with Some show ?thesis by auto
  qed
qed

lemma search_date_Some:
  "search_date s = Some d \<longleftrightarrow>
     (\<exists>i. embedded_date s i d \<and> (\<forall>j < i. \<forall>d'. \<not> embedded_date s j d'))"
proof (induction s)
  case Nil
  then show ?case by (simp add: embedded_date_Nil)
next
  case (Cons c cs)
  show ?case
  proof (cases "match_date_here (c # cs)")
    case (Some d0)
    then have e0: "embedded_date (c # cs) 0 d0" by (simp add: match_date_here_iff)
    have "(\<exists>i. embedded_date (c # cs) i d \<and> (\<forall>j < i. \<forall>d'. \<not> embedded_date (c # cs) j d')) \<longleftrightarrow> d = d0"
    proof
      assume "\<exists>i. embedded_date (c # cs) i d \<and> (\<forall>j < i. \<forall>d'. \<not> embedded_date (c # cs) j d')"
      then obtain i where i: "embedded_date (c # cs) i d" "\<forall>j < i. \<forall>d'. \<not> embedded_date (c # cs) j d'"
        by blast
      with e0 have "i = 0" by (cases i) auto
      with i e0 show "d = d0" by (auto dest: embedded_date_unique)
    next
      assume "d = d0"
      with e0 show "\<exists>i. embedded_date (c # cs) i d \<and> (\<forall>j < i. \<forall>d'. \<not> embedded_date (c # cs) j d')"
        by (intro exI[of _ 0]) simp
    qed
    with Some show ?thesis by auto
  next
    case None
    then have no0: "\<forall>d. \<not> embedded_date (c # cs) 0 d"
      by (simp add: match_date_here_iff[symmetric])
    have "(\<exists>i. embedded_date (c # cs) i d \<and> (\<forall>j < i. \<forall>d'. \<not> embedded_date (c # cs) j d'))
      \<longleftrightarrow> (\<exists>i. embedded_date cs i d \<and> (\<forall>j < i. \<forall>d'. \<not> embedded_date cs j d'))"
    proof
      assume "\<exists>i. embedded_date (c # cs) i d \<and> (\<forall>j < i. \<forall>d'. \<not> embedded_date (c # cs) j d')"
      then obtain i where i: "embedded_date (c # cs) i d" "\<forall>j < i. \<forall>d'. \<not> embedded_date (c # cs) j d'"
        by blast
      with no0 obtain k where k: "i = Suc k" by (cases i) auto
      have "\<forall>j < k. \<forall>d'. \<not> embedded_date cs j d'"
      proof (intro allI impI)
        fix j d' assume "j < k"
        then have "Suc j < i" using k by simp
        with i(2) have "\<not> embedded_date (c # cs) (Suc j) d'" by blast
        then show "\<not> embedded_date cs j d'" by (simp add: embedded_date_Suc)
      qed
      with i(1) k show "\<exists>i. embedded_date cs i d \<and> (\<forall>j < i. \<forall>d'. \<not> embedded_date cs j d')"
        by (auto simp: embedded_date_Suc)
    next
      assume "\<exists>i. embedded_date cs i d \<and> (\<forall>j < i. \<forall>d'. \<not> embedded_date cs j d')"
      then obtain k where k: "embedded_date cs k d" "\<forall>j < k. \<forall>d'. \<not> embedded_date cs j d'"
        by blast
      have "\<forall>j < Suc k. \<forall>d'. \<not> embedded_date (c # cs) j d'"
      proof (intro allI impI)
        fix j d' assume "j < Suc k"
        then show "\<not> embedded_date (c # cs) j d'"
          using no0 k(2) by (cases j) (simp_all add: embedded_date_Suc)
      qed
      with k(1) show "\<exists>i. embedded_date (c # cs) i d \<and> (\<forall>j < i. \<forall>d'. \<not> embedded_date (c # cs) j d')"
        by (intro exI[of _ "Suc k"]) (simp add: embedded_date_Suc)
    qed
    with None Cons.IH show ?thesis by simp
  qed
qed

lemma isdigit_ascii: "48 \<le> c \<Longrightarrow> c \<le> 57 \<Longrightarrow> isdigit c"
  by (simp add: isdigit_def decimal_zeros_def)

lemma embedded_date_iff:
  "embedded_date filename i d \<longleftrightarrow>
     date_shape d \<and>
     (\<exists>pre post. filename = pre @ lit ''QA_Log_'' @ d @ lit ''.md'' @ post \<and> length pre = i)"
proof
  assume a: "embedded_date filename i d"
  then obtain post where p: "drop i filename = lit ''QA_Log_'' @ d @ lit ''.md'' @ post"
    by (auto simp: embedded_date_def prefix_def)
  then have "drop i filename \<noteq> []" by (simp add: lit_def)
  then have "i \<le> length filename" by simp
  then have "length (take i filename) = i" by simp
  moreover have "filename = take i filename @ lit ''QA_Log_'' @ d @ lit ''.md'' @ post"
    using p by (metis append_take_drop_id)
  ultimately show "date_shape d \<and>
     (\<exists>pre post. filename = pre @ lit ''QA_Log_'' @ d @ lit ''.md'' @ post \<and> length pre = i)"
    using a by (auto simp: embedded_date_def)
next
  assume "date_shape d \<and>
     (\<exists>pre post. filename = pre @ lit ''QA_Log_'' @ d @ lit ''.md'' @ post \<and> length pre = i)"
  then show "embedded_date filename i d"
    by (auto simp: embedded_date_def)
qed

lemma extract_date_first:
  assumes "embedded_date filename i d" "\<forall>j < i. \<forall>d'. \<not> embedded_date filename j d'"
  shows "extract_date_from_filename today filename = d"
proof -
  from assms have "search_date filename = Some d"
    unfolding search_date_Some by blast
  then show ?thesis by (simp add: extract_date_from_filename_def)
qed

lemma extract_date_some:
  assumes "embedded_date filename i d"
  shows "\<exists>j d'. j \<le> i \<and> embedded_date filename j d' \<and> extract_date_from_filename today filename = d'"
proof -
  from assms have "search_date filename \<noteq> None"
    unfolding search_date_None by blast
  then obtain d' where s: "search_date filename = Some d'" by auto
  then obtain j where j: "embedded_date filename j d'" "\<forall>k < j. \<forall>e. \<not> embedded_date filename k e"
    unfolding search_date_Some by blast
  from j(2) assms have "j \<le> i" by (meson not_le)
  with j(1) s show ?thesis by (auto simp: extract_date_from_filename_def)
qed

lemma extract_date_none:
  assumes "\<forall>i d. \<not> embedded_date filename i d"
  shows "extract_date_from_filename today filename = today"
  using assms by (simp add: search_date_None[symmetric] extract_date_from_filename_def)

lemma extract_date_whole:
  assumes "date_shape d"
  shows "extract_date_from_filename today (lit ''QA_Log_'' @ d @ lit ''.md'') = d"
proof (rule extract_date_first[where i = 0])
  show "embedded_date (lit ''QA_Log_'' @ d @ lit ''.md'') 0 d"
    using assms by (simp add: embedded_date_def)
  show "\<forall>j<0. \<forall>d'. \<not> embedded_date (lit ''QA_Log_'' @ d @ lit ''.md'') j d'"
    by simp
qed

lemma date_shape_example: "date_shape (lit ''2024-03-01'')"
  by (simp add: date_shape_def lit_def isdigit_ascii)

lemma date_shape_no_calendar: "date_shape (lit ''2024-13-45'')"
  by (simp add: date_shape_def lit_def isdigit_ascii)

lemma embedded_date_cases:
  "(\<exists>i d. embedded_date filename i d \<and> (\<forall>j < i. \<forall>d'. \<not> embedded_date filename j d'))
   \<or> (\<forall>i d'. \<not> embedded_date filename i d')"
proof (cases "search_date filename")
  case None
  then show ?thesis by (simp add: search_date_None)
next
  case (Some d)
  then have "\<exists>i. embedded_date filename i d \<and> (\<forall>j < i. \<forall>d'. \<not> embedded_date filename j d')"
    by (simp add: search_date_Some)
  then show ?thesis by blast
qed

text \<open>
  Claim C5. The pattern \<^verbatim>\<open>QA_Log_\<close>, four digits, a dash, two digits, a dash, two digits,
  \<^verbatim>\<open>.md\<close> either matches somewhere in the file name or nowhere. When it matches, the
  result is the date that the leftmost match has captured, as it stands; when it matches
  nowhere, the result is the date of today. In particular a name that is exactly
  \<^verbatim>\<open>QA_Log_<date>.md\<close> gives its date, whether or not it is a date of the calendar, and
  \<^verbatim>\<open>QA_Log_2024-03-01.md\<close> gives \<^verbatim>\<open>2024-03-01\<close>.
\<close>

theorem extract_date_from_filename_spec:
  "(embedded_date filename i d \<and> (\<forall>j < i. \<forall>d'. \<not> embedded_date filename j d') \<longrightarrow>
      extract_date_from_filename today filename = d)
   \<and> ((\<forall>i d'. \<not> embedded_date filename i d') \<longrightarrow>
      extract_date_from_filename today filename = today)
   \<and> ((\<exists>i d. embedded_date filename i d \<and> (\<forall>j < i. \<forall>d'. \<not> embedded_date filename j d'))
        \<or> (\<forall>i d'. \<not> embedded_date filename i d'))
   \<and> (date_shape d \<longrightarrow>
      extract_date_from_filename today (lit ''QA_Log_'' @ d @ lit ''.md'') = d)
   \<and> extract_date_from_filename today (lit ''QA_Log_2024-03-01.md'') = lit ''2024-03-01''"
proof (intro conjI impI)
  assume "embedded_date filename i d \<and> (\<forall>j < i. \<forall>d'. \<not> embedded_date filename j d')"
  then show "extract_date_from_filename today filename = d"
    using extract_date_first by blast
next
  assume "\<forall>i d'. \<not> embedded_date filename i d'"
  then show "extract_date_from_filename today filename = today"
    by (rule extract_date_none)
next
  show "(\<exists>i d. embedded_date filename i d \<and> (\<forall>j < i. \<forall>d'. \<not> embedded_date filename j d'))
        \<or> (\<forall>i d'. \<not> embedded_date filename i d')"
    by (rule embedded_date_cases)
next
  assume "date_shape d"
  then show "extract_date_from_filename today (lit ''QA_Log_'' @ d @ lit ''.md'') = d"
    by (rule extract_date_whole)
next
  have "extract_date_from_filename today (lit ''QA_Log_'' @ lit ''2024-03-01'' @ lit ''.md'') = lit ''2024-03-01''"
    using date_shape_example by (rule extract_date_whole)
  then show "extract_date_from_filename today (lit ''QA_Log_2024-03-01.md'') = lit ''2024-03-01''"
    by (simp add: lit_def)
qed

lemma search_date_notes: "search_date (lit ''notes.txt'') = None"
  by (simp add: lit_def match_date_here_def)

theorem extract_date_from_filename_spec_witness:
  "embedded_date (lit ''report_QA_Log_2024-13-45.md.bak'') 7 (lit ''2024-13-45'')
   \<and> (\<forall>d'. \<not> embedded_date (lit ''report_QA_Log_2024-13-45.md.bak'') 0 d')
   \<and> (\<forall>d'. \<not> embedded_date (lit ''report_QA_Log_2024-13-45.md.bak'') 1 d')
   \<and> (\<forall>d'. \<not> embedded_date (lit ''report_QA_Log_2024-13-45.md.bak'') 2 d')
   \<and> (\<forall>d'. \<not> embedded_date (lit ''report_QA_Log_2024-13-45.md.bak'') 3 d')
   \<and> (\<forall>d'. \<not> embedded_date (lit ''report_QA_Log_2024-13-45.md.bak'') 4 d')
   \<and> (\<forall>d'. \<not> embedded_date (lit ''report_QA_Log_2024-13-45.md.bak'') 5 d')
   \<and> (\<forall>d'. \<not> embedded_date (lit ''report_QA_Log_2024-13-45.md.bak'') 6 d')
   \<and> extract_date_from_filename (lit ''2026-11-03'') (lit ''report_QA_Log_2024-13-45.md.bak'')
       = lit ''2024-13-45''
   \<and> (\<forall>i d'. \<not> embedded_date (lit ''notes.txt'') i d')
   \<and> extract_date_from_filename (lit ''2026-11-03'') (lit ''notes.txt'') = lit ''2026-11-03''
   \<and> date_shape (lit ''2024-13-45'')
   \<and> extract_date_from_filename (lit ''2026-11-03'') (lit ''QA_Log_2024-13-45.md'') = lit ''2024-13-45''"
proof -
  let ?f = "lit ''report_QA_Log_2024-13-45.md.bak''"
  note t = extract_date_from_filename_spec
    [where filename = ?f and i = 7 and d = "lit ''2024-13-45''" and today = "lit ''2026-11-03''"]
  note u = extract_date_from_filename_spec
    [where filename = "lit ''notes.txt''" and today = "lit ''2026-11-03''"]
  have a: "embedded_date ?f 7 (lit ''2024-13-45'')"
    by (simp add: embedded_date_def date_shape_def lit_def isdigit_ascii)
  have n: "\<forall>d'. \<not> embedded_date ?f 0 d'" "\<forall>d'. \<not> embedded_date ?f 1 d'"
    "\<forall>d'. \<not> embedded_date ?f 2 d'" "\<forall>d'. \<not> embedded_date ?f 3 d'"
    "\<forall>d'. \<not> embedded_date ?f 4 d'" "\<forall>d'. \<not> embedded_date ?f 5 d'"
    "\<forall>d'. \<not> embedded_date ?f 6 d'"
    by (simp_all add: embedded_date_def lit_def)
  have c: "\<forall>j < 7. \<forall>d'. \<not> embedded_date ?f j d'"
  proof (intro allI impI)
    fix j :: nat and d' assume "j < 7"
    then consider "j = 0" | "j = 1" | "j = 2" | "j = 3" | "j = 4" | "j = 5" | "j = 6"
      by linarith
    then show "\<not> embedded_date ?f j d'"
      using n by cases simp_all
  qed
  from t have "embedded_date ?f 7 (lit ''2024-13-45'') \<and>
      (\<forall>j < 7. \<forall>d'. \<not> embedded_date ?f j d') \<longrightarrow>
      extract_date_from_filename (lit ''2026-11-03'') ?f = lit ''2024-13-45''"
    by (rule conjunct1)
  with a c have r: "extract_date_from_filename (lit ''2026-11-03'') ?f = lit ''2024-13-45''"
    by blast
  have m: "\<forall>i d'. \<not> embedded_date (lit ''notes.txt'') i d'"
    using search_date_notes by (simp add: search_date_None)
  from u have "(\<forall>i d'. \<not> embedded_date (lit ''notes.txt'') i d') \<longrightarrow>
      extract_date_from_filename (lit ''2026-11-03'') (lit ''notes.txt'') = lit ''2026-11-03''"
    by (rule conjunct1[OF conjunct2])
  with m have q: "extract_date_from_filename (lit ''2026-11-03'') (lit ''notes.txt'') = lit ''2026-11-03''"
    by blast
  from t have "date_shape (lit ''2024-13-45'') \<longrightarrow>
      extract_date_from_filename (lit ''2026-11-03'') (lit ''QA_Log_'' @ lit ''2024-13-45'' @ lit ''.md'')
        = lit ''2024-13-45''"
    by (rule conjunct1[OF conjunct2[OF conjunct2[OF conjunct2]]])
  with date_shape_no_calendar
  have "extract_date_from_filename (lit ''2026-11-03'') (lit ''QA_Log_'' @ lit ''2024-13-45'' @ lit ''.md'')
        = lit ''2024-13-45''"
    by blast
  then have w: "extract_date_from_filename (lit ''2026-11-03'') (lit ''QA_Log_2024-13-45.md'') = lit ''2024-13-45''"
    by (simp add: lit_def)
  from a n r m q date_shape_no_calendar w show ?thesis by (intro conjI)
qed

text \<open>
  Claim C9. The pattern is searched, not anchored: when the file name holds
  \<^verbatim>\<open>QA_Log_<date>.md\<close> at some position, the result is the date of the first such
  position and never the date of today; \<^verbatim>\<open>backup_QA_Log_2024-03-01.md.old\<close> gives
  \<^verbatim>\<open>2024-03-01\<close>.
\<close>

theorem extract_date_substring_search:
  "(embedded_date filename i d \<and> (\<forall>j < i. \<forall>d'. \<not> embedded_date filename j d') \<longrightarrow>
      extract_date_from_filename today filename = d)
   \<and> (embedded_date filename i d \<longrightarrow>
      (\<exists>j d'. j \<le> i \<and> embedded_date filename j d' \<and>
         extract_date_from_filename today filename = d'))
   \<and> extract_date_from_filename today (lit ''backup_QA_Log_2024-03-01.md.old'') = lit ''2024-03-01''"
proof (intro conjI impI)
  assume "embedded_date filename i d \<and> (\<forall>j < i. \<forall>d'. \<not> embedded_date filename j d')"
  then show "extract_date_from_filename today filename = d"
    using extract_date_first by blast
next
  assume "embedded_date filename i d"
  then show "\<exists>j d'. j \<le> i \<and> embedded_date filename j d' \<and>
         extract_date_from_filename today filename = d'"
    by (rule extract_date_some)
next
  show "extract_date_from_filename today (lit ''backup_QA_Log_2024-03-01.md.old'') = lit ''2024-03-01''"
    by (simp add: extract_date_from_filename_def lit_def match_date_here_def date_shape_def isdigit_ascii)
qed

theorem extract_date_substring_search_witness:
  "embedded_date (lit ''old_QA_Log_2023-12-31.md_QA_Log_2024-03-01.md'') 4 (lit ''2023-12-31'')
   \<and> (\<forall>d'. \<not> embedded_date (lit ''old_QA_Log_2023-12-31.md_QA_Log_2024-03-01.md'') 0 d')
   \<and> (\<forall>d'. \<not> embedded_date (lit ''old_QA_Log_2023-12-31.md_QA_Log_2024-03-01.md'') 1 d')
   \<and> (\<forall>d'. \<not> embedded_date (lit ''old_QA_Log_2023-12-31.md_QA_Log_2024-03-01.md'') 2 d')
   \<and> (\<forall>d'. \<not> embedded_date (lit ''old_QA_Log_2023-12-31.md_QA_Log_2024-03-01.md'') 3 d')
   \<and> embedded_date (lit ''old_QA_Log_2023-12-31.md_QA_Log_2024-03-01.md'') 25 (lit ''2024-03-01'')
   \<and> extract_date_from_filename (lit ''2026-11-03'')
       (lit ''old_QA_Log_2023-12-31.md_QA_Log_2024-03-01.md'') = lit ''2023-12-31''"
proof -
  let ?f = "lit ''old_QA_Log_2023-12-31.md_QA_Log_2024-03-01.md''"
  have a: "embedded_date ?f 4 (lit ''2023-12-31'')"
    by (simp add: embedded_date_def date_shape_def lit_def isdigit_ascii)
  have b: "embedded_date ?f 25 (lit ''2024-03-01'')"
    by (simp add: embedded_date_def date_shape_def lit_def isdigit_ascii)
  have n: "\<forall>d'. \<not> embedded_date ?f 0 d'" "\<forall>d'. \<not> embedded_date ?f 1 d'"
    "\<forall>d'. \<not> embedded_date ?f 2 d'" "\<forall>d'. \<not> embedded_date ?f 3 d'"
    by (simp_all add: embedded_date_def lit_def)
  have c: "\<forall>j < 4. \<forall>d'. \<not> embedded_date ?f j d'"
  proof (intro allI impI)
    fix j :: nat and d' assume "j < 4"
    then consider "j = 0" | "j = 1" | "j = 2" | "j = 3" by linarith
    then show "\<not> embedded_date ?f j d'"
      using n by cases simp_all
  qed
  from a b c n extract_date_substring_search [of ?f 4 "lit ''2023-12-31''" "lit ''2026-11-03''"]
  show ?thesis by blast
qed

section \<open>Properties of the renderer\<close>

lemma join_Cons: "ys \<noteq> [] \<Longrightarrow> join sep (x # ys) = x @ sep @ join sep ys"
  by (cases ys) simp_all

lemma join_append:
  "xs \<noteq> [] \<Longrightarrow> ys \<noteq> [] \<Longrightarrow> join sep (xs @ ys) = join sep xs @ sep @ join sep ys"
proof (induction sep xs rule: join.induct)
  case (1 sep)
  then show ?case by simp
next
  case (2 sep x)
  then show ?case by (simp add: join_Cons)
next
  case (3 sep x y ys')
  then show ?case by simp
qed

lemma list_block_bullets: "list_block items = join [10] (map bullet items)"
  by (simp add: list_block_def bullet_def [abs_def])

lemma join_report_lines:
  assumes "kt \<noteq> []" "bugs \<noteq> []" "ps \<noteq> []" "next \<noteq> []"
  shows "join [10] (report_lines date kt bugs ps next) @ [10] =
         report_text date (list_block kt) (list_block bugs) (list_block ps) (list_block next)"
  using assms
  by (simp add: report_lines_def report_text_def list_block_bullets join_Cons join_append)

lemma generate_report_present:
  assumes "map_of sections tasks_done = Some td"
    and "map_of sections bugs_found = Some bugs"
    and "map_of sections fixes_verified = Some fv"
    and "map_of sections observations = Some ob"
    and "map_of sections next_steps = Some next"
  shows "generate_report sections date =
     Inr (report_text date (list_block (td @ fv @ ob)) (list_block bugs)
            (list_block (fv @ ob)) (list_block next))"
  using assms by (simp add: generate_report_def getitem_def bind_def)

text \<open>
  Claim C6. For a dictionary that holds the five sections, each with at least one item,
  the report is the fixed template, line by line: the title with the date, then under
  Key Takeaways the items of Tasks Done, Fixes Verified and Observations in that order,
  under Bugs Found the bugs, under Progress Summary the items of Fixes Verified and
  Observations, under Next Steps the next steps; every item is one line \<^verbatim>\<open>- <item>\<close>,
  the lines are joined by newlines, and one newline ends the text.
\<close>

theorem generate_report_template:
  assumes "map_of sections tasks_done = Some td"
    and "map_of sections bugs_found = Some bugs"
    and "map_of sections fixes_verified = Some fv"
    and "map_of sections observations = Some ob"
    and "map_of sections next_steps = Some next"
    and "td \<noteq> []" and "bugs \<noteq> []" and "fv \<noteq> []" and "ob \<noteq> []" and "next \<noteq> []"
  shows "generate_report sections date =
     Inr (join [10] (report_lines date (td @ fv @ ob) bugs (fv @ ob) next) @ [10])"
proof -
  have "join [10] (report_lines date (td @ fv @ ob) bugs (fv @ ob) next) @ [10] =
      report_text date (list_block (td @ fv @ ob)) (list_block bugs)
            (list_block (fv @ ob)) (list_block next)"
    using assms(6-10) by (intro join_report_lines) simp_all
  with generate_report_present[OF assms(1-5)] show ?thesis by simp
qed

lemma list_block_last:
  "items \<noteq> [] \<Longrightarrow> \<exists>pre. list_block items = pre @ bullet (last items)"
proof (induction items)
  case Nil
  then show ?case by simp
next
  case (Cons x xs)
  show ?case
  proof (cases "xs = []")
    case True
    then show ?thesis by (simp add: list_block_bullets)
  next
    case False
    with Cons.IH obtain pre where "list_block xs = pre @ bullet (last xs)" by blast
    with False have "list_block (x # xs) = (bullet x @ [10] @ pre) @ bullet (last (x # xs))"
      by (simp add: list_block_bullets join_Cons)
    then show ?thesis by blast
  qed
qed

text \<open>
  Claim C10. The report ends with the bullet line of the last item of Next Steps and one
  newline after it; when that item holds no newline, the report does not end with two.
\<close>

theorem generate_report_final_newline:
  assumes "map_of sections tasks_done = Some td"
    and "map_of sections bugs_found = Some bugs"
    and "map_of sections fixes_verified = Some fv"
    and "map_of sections observations = Some ob"
    and "map_of sections next_steps = Some next"
    and "next \<noteq> []"
  shows "\<exists>body. generate_report sections date = Inr (body @ bullet (last next) @ [10])
           \<and> (10 \<notin> set (last next) \<longrightarrow> \<not> suffix [10, 10] (body @ bullet (last next) @ [10]))"
proof -
  from list_block_last[OF assms(6)] obtain pre where pre: "list_block next = pre @ bullet (last next)"
    by blast
  define body where "body =
     lit ''### '' @ [128227] @ lit '' Project Update: '' @ date @ [10, 10] @
     lit ''#### '' @ [128273] @ lit '' Key Takeaways'' @ [10] @ list_block (td @ fv @ ob) @ [10, 10] @
     lit ''#### '' @ [128027] @ lit '' Bugs Found'' @ [10] @ list_block bugs @ [10, 10] @
     lit ''#### '' @ [128202] @ lit '' Progress Summary'' @ [10] @ list_block (fv @ ob) @ [10, 10] @
     lit ''#### '' @ [128257] @ lit '' Next Steps'' @ [10] @ pre"
  have r: "generate_report sections date = Inr (body @ bullet (last next) @ [10])"
    using generate_report_present[OF assms(1-5)] pre
    by (simp add: report_text_def body_def)
  have "\<not> suffix [10, 10] (body @ bullet (last next) @ [10])" if "10 \<notin> set (last next)"
  proof
    assume "suffix [10, 10] (body @ bullet (last next) @ [10])"
    then obtain ys where "(body @ bullet (last next)) @ [10] = (ys @ [10]) @ [10]"
      by (auto simp: suffix_def)
    then have "body @ bullet (last next) = ys @ [10]"
      by (simp only: append1_eq_conv)
    then obtain zs where zs: "body @ bullet (last next) = zs @ [10]" ..
    have "bullet (last next) \<noteq> []" by (simp add: bullet_def lit_def)
    then have "last (body @ bullet (last next)) = last (bullet (last next))" by simp
    with zs have "last (bullet (last next)) = 10" by simp
    moreover have "last (bullet (last next)) \<in> set (bullet (last next))"
      using \<open>bullet (last next) \<noteq> []\<close> by (rule last_in_set)
    ultimately have "10 \<in> set (bullet (last next))" by simp
    with that show False by (simp add: bullet_def lit_def)
  qed
  with r show ?thesis by blast
qed

lemma example_log_lookup:
  "map_of example_log tasks_done = Some [lit ''Wrote tests'']"
  "map_of example_log bugs_found = Some [lit ''Crash on save'', lit ''Typo in UI'']"
  "map_of example_log fixes_verified = Some [lit ''Login fixed'']"
  "map_of example_log observations = Some [lit ''Slow start'']"
  "map_of example_log next_steps = Some [lit ''Fix crash'', lit ''Ship'']"
  using section_names_neq section_names_neq[symmetric]
  by (simp_all add: example_log_def)

theorem generate_report_template_witness:
  "map_of example_log tasks_done = Some [lit ''Wrote tests'']
   \<and> map_of example_log bugs_found = Some [lit ''Crash on save'', lit ''Typo in UI'']
   \<and> map_of example_log fixes_verified = Some [lit ''Login fixed'']
   \<and> map_of example_log observations = Some [lit ''Slow start'']
   \<and> map_of example_log next_steps = Some [lit ''Fix crash'', lit ''Ship'']
   \<and> generate_report example_log (lit ''2024-03-01'') =
       Inr (join [10]
         [lit ''### '' @ [128227] @ lit '' Project Update: 2024-03-01'',
          [],
          lit ''#### '' @ [128273] @ lit '' Key Takeaways'',
          lit ''- Wrote tests'',
          lit ''- Login fixed'',
          lit ''- Slow start'',
          [],
          lit ''#### '' @ [128027] @ lit '' Bugs Found'',
          lit ''- Crash on save'',
          lit ''- Typo in UI'',
          [],
          lit ''#### '' @ [128202] @ lit '' Progress Summary'',
          lit ''- Login fixed'',
          lit ''- Slow start'',
          [],
          lit ''#### '' @ [128257] @ lit '' Next Steps'',
          lit ''- Fix crash'',
          lit ''- Ship''] @ [10])"
  using example_log_lookup
    generate_report_template [OF example_log_lookup, of "lit ''2024-03-01''"]
  by (simp add: report_lines_def bullet_def lit_def)

theorem generate_report_final_newline_witness:
  "map_of example_log tasks_done = Some [lit ''Wrote tests'']
   \<and> map_of example_log bugs_found = Some [lit ''Crash on save'', lit ''Typo in UI'']
   \<and> map_of example_log fixes_verified = Some [lit ''Login fixed'']
   \<and> map_of example_log observations = Some [lit ''Slow start'']
   \<and> map_of example_log next_steps = Some [lit ''Fix crash'', lit ''Ship'']
   \<and> (\<exists>body. generate_report example_log (lit ''2024-03-01'') = Inr (body @ lit ''- Ship'' @ [10])
         \<and> \<not> suffix [10, 10] (body @ lit ''- Ship'' @ [10]))"
  using example_log_lookup
    generate_report_final_newline [OF example_log_lookup, of "lit ''2024-03-01''"]
  by (simp add: bullet_def lit_def)

section \<open>The parsed dictionary and the outcomes of the program\<close>

lemma parse_content_eq:
  "parse_content content =
     map (\<lambda>section_name. (section_name, section_content content section_name)) section_names"
  using section_names_neq section_names_neq[symmetric]
  by (simp add: parse_content_def initial_sections_def section_names_def)

lemma map_of_map_key: "k \<in> set ks \<Longrightarrow> map_of (map (\<lambda>k. (k, f k)) ks) k = Some (f k)"
  by (induction ks) auto

lemma map_of_parse_content:
  "section_name \<in> set section_names \<Longrightarrow>
     map_of (parse_content content) section_name = Some (section_content content section_name)"
  unfolding parse_content_eq by (rule map_of_map_key)

lemma generate_report_parse_content:
  "generate_report (parse_content content) date =
     Inr (report_text date
            (list_block (section_content content tasks_done @
               section_content content fixes_verified @ section_content content observations))
            (list_block (section_content content bugs_found))
            (list_block (section_content content fixes_verified @
               section_content content observations))
            (list_block (section_content content next_steps)))"
  by (rule generate_report_present) (simp_all add: map_of_parse_content section_names_mem)

lemma find_latest_log_Some:
  assumes "find_latest_log entries = Some f"
  shows "f \<in> set entries \<and> fnmatch_QA_Log f"
proof -
  from assms obtain rest where "sort_reverse (glob_QA_Log entries) = f # rest"
    by (auto simp: find_latest_log_def Let_def split: if_splits list.splits)
  then have "f \<in> set (sort_reverse (glob_QA_Log entries))" by simp
  then show ?thesis by (simp add: sort_reverse_def glob_QA_Log_def)
qed

lemma find_latest_log_nonempty: "find_latest_log entries = Some f \<Longrightarrow> f \<noteq> []"
  by (auto dest!: find_latest_log_Some simp: fnmatch_QA_Log_def lit_def)

text \<open>
  Claim C7, as the program behaves. Without a matching file, \<^const>\<open>main\<close> prints the
  message and returns. With one whose text can be read, it prints a report whatever the
  text and the name are. When the file cannot be opened or decoded, the exception leaves
  \<^const>\<open>main\<close>: nothing catches it.
\<close>

theorem main_outcomes:
  "(find_latest_log entries = None \<longrightarrow>
      main today entries read_file = Inr (no_file_message @ [10]))
   \<and> (find_latest_log entries = Some f \<and> read_file f = Inr content \<longrightarrow>
      (\<exists>report.
         generate_report (parse_content content) (extract_date_from_filename today f) = Inr report
         \<and> main today entries read_file = Inr (report @ [10])))
   \<and> (find_latest_log entries = Some f \<and> read_file f = Inl e \<longrightarrow>
      main today entries read_file = Inl e)"
proof (intro conjI impI)
  assume "find_latest_log entries = None"
  then show "main today entries read_file = Inr (no_file_message @ [10])"
    by (simp add: main_def)
next
  assume a: "find_latest_log entries = Some f \<and> read_file f = Inr content"
  then have "f \<noteq> []" by (blast dest: find_latest_log_nonempty)
  with a show "\<exists>report.
         generate_report (parse_content content) (extract_date_from_filename today f) = Inr report
         \<and> main today entries read_file = Inr (report @ [10])"
    by (simp add: main_def parse_log_def bind_def generate_report_parse_content)
next
  assume a: "find_latest_log entries = Some f \<and> read_file f = Inl e"
  then have "f \<noteq> []" by (blast dest: find_latest_log_nonempty)
  with a show "main today entries read_file = Inl e"
    by (simp add: main_def parse_log_def bind_def)
qed

lemma find_latest_log_single:
  "find_latest_log [lit ''QA_Log_2024-03-01.md''] = Some (lit ''QA_Log_2024-03-01.md'')"
  by (simp add: find_latest_log_def glob_QA_Log_def fnmatch_QA_Log_def sort_reverse_def
      lit_def suffix_to_prefix)

lemma find_latest_log_notes: "find_latest_log [lit ''notes.txt''] = None"
  by (simp add: find_latest_log_def glob_QA_Log_def fnmatch_QA_Log_def lit_def)

theorem main_outcomes_witness:
  "find_latest_log [lit ''notes.txt''] = None
   \<and> main (lit ''2026-11-03'') [lit ''notes.txt''] (\<lambda>path. Inr []) = Inr (no_file_message @ [10])
   \<and> find_latest_log [lit ''QA_Log_2024-03-01.md''] = Some (lit ''QA_Log_2024-03-01.md'')
   \<and> (\<exists>report. main (lit ''2026-11-03'') [lit ''QA_Log_2024-03-01.md'']
          (\<lambda>path. Inr (lit ''## no heading of a section'')) = Inr (report @ [10]))
   \<and> main (lit ''2026-11-03'') [lit ''QA_Log_2024-03-01.md'']
          (\<lambda>path. Inl UnicodeDecodeError) = Inl UnicodeDecodeError"
  using find_latest_log_single find_latest_log_notes
    main_outcomes [where entries = "[lit ''notes.txt'']" and today = "lit ''2026-11-03''"
       and read_file = "\<lambda>path. Inr []"]
    main_outcomes [where entries = "[lit ''QA_Log_2024-03-01.md'']"
       and f = "lit ''QA_Log_2024-03-01.md''" and today = "lit ''2026-11-03''"
       and read_file = "\<lambda>path. Inr (lit ''## no heading of a section'')"
       and content = "lit ''## no heading of a section''"]
    main_outcomes [where entries = "[lit ''QA_Log_2024-03-01.md'']"
       and f = "lit ''QA_Log_2024-03-01.md''" and today = "lit ''2026-11-03''"
       and read_file = "\<lambda>path. Inl UnicodeDecodeError" and e = UnicodeDecodeError]
  by auto

text \<open>
  An unreadable file does not degrade to placeholders: the error of \<^verbatim>\<open>open\<close> is the
  outcome of the program.
\<close>

theorem main_unreadable_file_counterexample:
  "main (lit ''2026-11-03'') [lit ''QA_Log_2024-03-01.md''] (\<lambda>path. Inl OSError) = Inl OSError"
  using find_latest_log_single by (simp add: main_def parse_log_def bind_def lit_def)

section \<open>Properties of the search for a section\<close>

lemma heading_nonempty: "heading section_name \<noteq> []"
  by (simp add: heading_def)

lemma search_section_None_iff:
  "search_section section_name content = None \<longleftrightarrow> \<not> sublist (heading section_name) content"
  by (induction content) (simp_all add: heading_nonempty sublist_Cons_right)

lemma search_section_first:
  "first_heading content section_name pre rest \<Longrightarrow>
     search_section section_name content = Some (lazy_group rest)"
proof (induction pre arbitrary: content)
  case Nil
  then have c: "content = heading section_name @ rest"
    by (simp add: first_heading_iff)
  have "content \<noteq> []"
    using c heading_nonempty[of section_name] by simp
  then obtain x xs where x: "content = x # xs"
    by (meson neq_Nil_conv)
  have "prefix (heading section_name) content" using c by simp
  moreover have "drop (length (heading section_name)) content = rest" using c by simp
  ultimately show ?case unfolding x by simp
next
  case (Cons a pre)
  from Cons.prems have c: "content = a # (pre @ heading section_name @ rest)"
    by (simp add: first_heading_iff)
  from Cons.prems have f: "\<forall>i < Suc (length pre). \<not> prefix (heading section_name) (drop i content)"
    unfolding first_heading_iff length_Cons by (rule conjunct2)
  from f have "\<not> prefix (heading section_name) (drop 0 content)" by blast
  then have n0: "\<not> prefix (heading section_name) content" by simp
  have "first_heading (pre @ heading section_name @ rest) section_name pre rest"
    unfolding first_heading_iff
  proof (intro conjI allI impI)
    fix i assume "i < length pre"
    then have "\<not> prefix (heading section_name) (drop (Suc i) content)" using f by simp
    then show "\<not> prefix (heading section_name) (drop i (pre @ heading section_name @ rest))"
      using c by simp
  qed simp
  then have "search_section section_name (pre @ heading section_name @ rest) = Some (lazy_group rest)"
    by (rule Cons.IH)
  with n0 show ?case unfolding c by simp
qed

lemma lazy_group_split:
  "\<exists>tail. rest = lazy_group rest @ tail \<and> (tail = [] \<or> prefix (10 # lit ''###'') tail)"
proof (induction rest)
  case Nil
  then show ?case by simp
next
  case (Cons c cs)
  show ?case
  proof (cases "prefix (10 # lit ''###'') (c # cs)")
    case True
    then show ?thesis by simp
  next
    case False
    from Cons.IH obtain tail where "cs = lazy_group cs @ tail"
      "tail = [] \<or> prefix (10 # lit ''###'') tail" by blast
    with False show ?thesis by auto
  qed
qed

lemma prefix_lazy_group: "prefix (lazy_group rest) rest"
  using lazy_group_split[of rest] by (metis prefixI)

lemma lazy_group_lines:
  "(\<forall>l \<in> set (tl (split_char 10 (lazy_group rest))). \<not> prefix (lit ''###'') l)"
proof (induction rest)
  case Nil
  then show ?case by simp
next
  case (Cons c cs)
  show ?case
  proof (cases "prefix (10 # lit ''###'') (c # cs)")
    case True
    then show ?thesis by simp
  next
    case False
    note nf = False
    show ?thesis
    proof (cases "c = 10")
      case True
      with nf have n: "\<not> prefix (lit ''###'') cs" by simp
      have "prefix (hd (split_char 10 (lazy_group cs))) cs"
        using hd_split_char_prefix prefix_lazy_group by (rule prefix_order.trans)
      have h: "\<not> prefix (lit ''###'') (hd (split_char 10 (lazy_group cs)))"
      proof
        assume "prefix (lit ''###'') (hd (split_char 10 (lazy_group cs)))"
        then have "prefix (lit ''###'') cs"
          using \<open>prefix (hd (split_char 10 (lazy_group cs))) cs\<close> by (rule prefix_order.trans)
        with n show False by contradiction
      qed
      have "set (split_char 10 (lazy_group cs)) =
          insert (hd (split_char 10 (lazy_group cs))) (set (tl (split_char 10 (lazy_group cs))))"
        using split_char_nonempty[of 10 "lazy_group cs"]
        by (cases "split_char 10 (lazy_group cs)") simp_all
      with h Cons.IH True nf show ?thesis by simp
    next
      case False
      with nf Cons.IH show ?thesis
        by (simp add: split_char_Cons del: split_char.simps(2))
    qed
  qed
qed

lemma lazy_group_first_line:
  "prefix (lit ''###'') (hd (split_char 10 (lazy_group rest))) \<Longrightarrow> prefix (lit ''###'') rest"
proof -
  assume a: "prefix (lit ''###'') (hd (split_char 10 (lazy_group rest)))"
  have "prefix (hd (split_char 10 (lazy_group rest))) rest"
    using hd_split_char_prefix prefix_lazy_group by (rule prefix_order.trans)
  with a show ?thesis by (rule prefix_order.trans)
qed

lemma lazy_group_no_heading_line:
  assumes "\<not> prefix (lit ''###'') rest"
  shows "\<forall>l \<in> set (split_char 10 (lazy_group rest)). \<not> prefix (lit ''###'') l"
proof -
  have "set (split_char 10 (lazy_group rest)) =
      insert (hd (split_char 10 (lazy_group rest))) (set (tl (split_char 10 (lazy_group rest))))"
    using split_char_nonempty[of 10 "lazy_group rest"]
    by (cases "split_char 10 (lazy_group rest)") simp_all
  with assms lazy_group_first_line[of rest] lazy_group_lines[of rest] show ?thesis
    by auto
qed

text \<open>
  Claim C3, as the program behaves. A section is captured from the first place where the
  text \<^verbatim>\<open>### <name>\<close> and a newline stand, wherever that is in a line, and from nowhere
  when they stand nowhere. The block begins after that newline and ends before a newline
  that \<^verbatim>\<open>###\<close> follows, or at the end of the text. When the text after the heading does
  not itself begin with \<^verbatim>\<open>###\<close>, no line of the block begins with \<^verbatim>\<open>###\<close>: the block
  stops before the next such line. Later headings of the same name are part of
  \<open>rest\<close> and are not looked at.
\<close>

theorem search_section_first_occurrence:
  "(\<not> sublist (heading section_name) content \<longrightarrow> search_section section_name content = None)
   \<and> (first_heading content section_name pre rest \<longrightarrow>
        (\<exists>block tail.
           search_section section_name content = Some block
           \<and> rest = block @ tail
           \<and> (tail = [] \<or> prefix (10 # lit ''###'') tail)
           \<and> (\<not> prefix (lit ''###'') rest \<longrightarrow>
                (\<forall>l \<in> set (split_char 10 block). \<not> prefix (lit ''###'') l))))"
proof (intro conjI impI)
  assume "\<not> sublist (heading section_name) content"
  then show "search_section section_name content = None"
    by (simp add: search_section_None_iff)
next
  assume f: "first_heading content section_name pre rest"
  from lazy_group_split[of rest] obtain tail where
    t: "rest = lazy_group rest @ tail" "tail = [] \<or> prefix (10 # lit ''###'') tail"
    by blast
  show "\<exists>block tail.
           search_section section_name content = Some block
           \<and> rest = block @ tail
           \<and> (tail = [] \<or> prefix (10 # lit ''###'') tail)
           \<and> (\<not> prefix (lit ''###'') rest \<longrightarrow>
                (\<forall>l \<in> set (split_char 10 block). \<not> prefix (lit ''###'') l))"
  proof (intro exI conjI impI)
    show "search_section section_name content = Some (lazy_group rest)"
      using f by (rule search_section_first)
    show "rest = lazy_group rest @ tail" by (rule t(1))
    show "tail = [] \<or> prefix (10 # lit ''###'') tail" by (rule t(2))
  next
    assume "\<not> prefix (lit ''###'') rest"
    then show "\<forall>l \<in> set (split_char 10 (lazy_group rest)). \<not> prefix (lit ''###'') l"
      by (rule lazy_group_no_heading_line)
  qed
qed

section \<open>Properties of the lines of a block\<close>

lemma block_lines_filter:
  "block_lines block =
     map (\<lambda>line. strip (strip_chars (lit ''- '') line))
       (filter (\<lambda>line. \<not> list_all isspace line) (split_char 10 (strip block)))"
  by (simp add: block_lines_def strip_Nil_iff)

lemma set_split_char: "set s \<subseteq> \<Union> (set ` set (split_char sep s)) \<union> {sep}"
proof (induction s)
  case Nil
  then show ?case by simp
next
  case (Cons c cs)
  have "set (split_char sep cs) =
      insert (hd (split_char sep cs)) (set (tl (split_char sep cs)))"
    using split_char_nonempty[of sep cs] by (cases "split_char sep cs") simp_all
  with Cons show ?case
    by (auto simp: split_char_Cons simp del: split_char.simps(2))
qed

lemma block_lines_Nil_iff: "block_lines block = [] \<longleftrightarrow> list_all isspace block"
proof
  assume "list_all isspace block"
  then have s: "strip block = []" by (simp add: strip_Nil_iff)
  have "strip [] = []" by (simp add: strip_def strip_while_def)
  then show "block_lines block = []" unfolding block_lines_def s by simp
next
  assume e: "block_lines block = []"
  show "list_all isspace block"
  proof (rule ccontr)
    assume "\<not> list_all isspace block"
    then have ne: "strip block \<noteq> []" by (simp add: strip_Nil_iff)
    have "strip (strip block) = strip block"
      by (simp add: strip_def strip_while_idem)
    with ne have "\<not> list_all isspace (strip block)"
      by (metis strip_Nil_iff)
    then obtain x where x: "x \<in> set (strip block)" "\<not> isspace x"
      by (auto simp: list_all_iff)
    then have "x \<noteq> 10" by (auto simp: isspace_def)
    with x(1) set_split_char[of "strip block" 10]
    obtain l where l: "l \<in> set (split_char 10 (strip block))" "x \<in> set l"
      by auto
    with x(2) have "\<not> list_all isspace l" by (auto simp: list_all_iff)
    with l(1) have "filter (\<lambda>line. \<not> list_all isspace line) (split_char 10 (strip block)) \<noteq> []"
      by (auto simp: filter_empty_conv)
    then have "block_lines block \<noteq> []" by (simp add: block_lines_filter)
    with e show False by contradiction
  qed
qed

lemma set_split_char_line: "l \<in> set (split_char sep s) \<Longrightarrow> set l \<subseteq> set s"
proof (induction s arbitrary: l)
  case Nil
  then show ?case by simp
next
  case (Cons c cs)
  have e: "set (split_char sep cs) =
      insert (hd (split_char sep cs)) (set (tl (split_char sep cs)))"
    using split_char_nonempty[of sep cs] by (cases "split_char sep cs") simp_all
  show ?case
  proof (cases "c = sep")
    case True
    with Cons show ?thesis by auto
  next
    case False
    with Cons.prems have "l = c # hd (split_char sep cs) \<or> l \<in> set (tl (split_char sep cs))"
      by (simp add: split_char_Cons del: split_char.simps(2))
    then show ?thesis
    proof
      assume "l = c # hd (split_char sep cs)"
      moreover have "set (hd (split_char sep cs)) \<subseteq> set cs"
        using e by (intro Cons.IH) simp
      ultimately show ?thesis by auto
    next
      assume "l \<in> set (tl (split_char sep cs))"
      then have "set l \<subseteq> set cs" using e by (intro Cons.IH) simp
      then show ?thesis by auto
    qed
  qed
qed

lemma blank_lines_iff:
  "(\<forall>line \<in> set (split_char 10 block). strip line = []) \<longleftrightarrow> list_all isspace block"
proof
  assume a: "\<forall>line \<in> set (split_char 10 block). strip line = []"
  show "list_all isspace block"
    unfolding list_all_iff
  proof
    fix x assume "x \<in> set block"
    with set_split_char[of block 10] consider "x = 10"
      | l where "l \<in> set (split_char 10 block)" "x \<in> set l"
      by auto
    then show "isspace x"
    proof cases
      case 1
      then show ?thesis by (simp add: isspace_def)
    next
      case 2
      with a have "list_all isspace l" by (simp add: strip_Nil_iff)
      with 2(2) show ?thesis by (simp add: list_all_iff)
    qed
  qed
next
  assume a: "list_all isspace block"
  show "\<forall>line \<in> set (split_char 10 block). strip line = []"
  proof
    fix line assume "line \<in> set (split_char 10 block)"
    then have "set line \<subseteq> set block" by (rule set_split_char_line)
    with a have "list_all isspace line" by (auto simp: list_all_iff)
    then show "strip line = []" by (simp add: strip_Nil_iff)
  qed
qed

lemma block_lines_stripped: "item \<in> set (block_lines block) \<Longrightarrow> strip item = item"
  by (auto simp: block_lines_def strip_def strip_while_idem)

lemma strip_chars_around:
  assumes "set pre \<subseteq> {45, 32}" "set post \<subseteq> {45, 32}"
    and "core \<noteq> []" "hd core \<notin> {45, 32}" "last core \<notin> {45, 32}"
  shows "strip_chars (lit ''- '') (pre @ core @ post) = core"
proof -
  have s: "set (lit ''- '') = {45, 32}" by (simp add: lit_def)
  show ?thesis
    unfolding strip_chars_def s
    using assms by (intro strip_while_around) auto
qed

text \<open>
  What holds of the lines of every block. The block is stripped of white space and split
  at newlines; the test that drops a line looks at the line before the strip of dashes, so
  that the lines that stay are those with a character that is not white space; every line
  that stays is stripped of dashes and spaces at both ends and then of white space, so
  that no item begins or ends with white space, dashes and spaces around a text that
  neither begins nor ends with one are removed on both sides, \<^verbatim>\<open>-- note\<close> gives
  \<^verbatim>\<open>note\<close> and \<^verbatim>\<open>note - \<close> gives \<^verbatim>\<open>note\<close>.
\<close>

theorem block_lines_spec:
  "block_lines block =
     map (\<lambda>line. strip (strip_chars (lit ''- '') line))
       (filter (\<lambda>line. \<not> list_all isspace line) (split_char 10 (strip block)))
   \<and> (\<forall>item \<in> set (block_lines block). strip item = item)
   \<and> (block_lines block = [] \<longleftrightarrow> list_all isspace block)
   \<and> (set pre \<subseteq> {45, 32} \<and> set post \<subseteq> {45, 32} \<and> core \<noteq> [] \<and>
        hd core \<notin> {45, 32} \<and> last core \<notin> {45, 32} \<longrightarrow>
        strip_chars (lit ''- '') (pre @ core @ post) = core)
   \<and> block_lines (lit ''-- note'') = [lit ''note'']
   \<and> block_lines (lit ''note - '') = [lit ''note'']"
proof (intro conjI ballI impI)
  show "block_lines block =
     map (\<lambda>line. strip (strip_chars (lit ''- '') line))
       (filter (\<lambda>line. \<not> list_all isspace line) (split_char 10 (strip block)))"
    by (rule block_lines_filter)
  show "(block_lines block = []) = list_all isspace block"
    by (rule block_lines_Nil_iff)
  show "block_lines (lit ''-- note'') = [lit ''note'']"
    by (simp add: block_lines_def strip_def strip_chars_def strip_while_def isspace_def lit_def)
  show "block_lines (lit ''note - '') = [lit ''note'']"
    by (simp add: block_lines_def strip_def strip_chars_def strip_while_def isspace_def lit_def)
next
  fix item assume "item \<in> set (block_lines block)"
  then show "strip item = item" by (rule block_lines_stripped)
next
  assume "set pre \<subseteq> {45, 32} \<and> set post \<subseteq> {45, 32} \<and> core \<noteq> [] \<and>
        hd core \<notin> {45, 32} \<and> last core \<notin> {45, 32}"
  then show "strip_chars (lit ''- '') (pre @ core @ post) = core"
    by (intro strip_chars_around) simp_all
qed

theorem block_lines_spec_witness:
  "block_lines (lit ''  - first - '' @ [10] @ lit ''   '' @ [10] @ lit ''-- second'' @ [10])
     = [lit ''first'', lit ''second'']
   \<and> strip (lit ''first'') = lit ''first''
   \<and> list_all isspace (lit ''  '' @ [10, 9]) \<and> block_lines (lit ''  '' @ [10, 9]) = []
   \<and> strip_chars (lit ''- '') (lit ''-- '' @ lit ''a - b'' @ lit '' - '') = lit ''a - b''"
proof -
  let ?b = "lit ''  - first - '' @ [10] @ lit ''   '' @ [10] @ lit ''-- second'' @ [10]"
  note t = block_lines_spec [of ?b "lit ''-- ''" "lit '' - ''" "lit ''a - b''"]
  note u = block_lines_spec [of "lit ''  '' @ [10, 9]" "[]" "[]" "[1]"]
  have b: "block_lines ?b = [lit ''first'', lit ''second'']"
    by (simp add: block_lines_def strip_def strip_chars_def strip_while_def isspace_def lit_def)
  from t have "\<forall>item \<in> set (block_lines ?b). strip item = item"
    by (rule conjunct1[OF conjunct2])
  then have s: "strip (lit ''first'') = lit ''first''"
    unfolding b by simp
  have w: "list_all isspace (lit ''  '' @ [10, 9])"
    by (simp add: isspace_def lit_def)
  from u have "(block_lines (lit ''  '' @ [10, 9]) = []) = list_all isspace (lit ''  '' @ [10, 9])"
    by (rule conjunct1[OF conjunct2[OF conjunct2]])
  with w have e: "block_lines (lit ''  '' @ [10, 9]) = []" by simp
  from t have "set (lit ''-- '') \<subseteq> {45, 32} \<and> set (lit '' - '') \<subseteq> {45, 32} \<and> lit ''a - b'' \<noteq> [] \<and>
        hd (lit ''a - b'') \<notin> {45, 32} \<and> last (lit ''a - b'') \<notin> {45, 32} \<longrightarrow>
        strip_chars (lit ''- '') (lit ''-- '' @ lit ''a - b'' @ lit '' - '') = lit ''a - b''"
    by (rule conjunct1[OF conjunct2[OF conjunct2[OF conjunct2]]])
  moreover have "set (lit ''-- '') \<subseteq> {45, 32} \<and> set (lit '' - '') \<subseteq> {45, 32} \<and> lit ''a - b'' \<noteq> [] \<and>
        hd (lit ''a - b'') \<notin> {45, 32} \<and> last (lit ''a - b'') \<notin> {45, 32}"
    by (simp add: lit_def)
  ultimately have c: "strip_chars (lit ''- '') (lit ''-- '' @ lit ''a - b'' @ lit '' - '') = lit ''a - b''"
    by (rule mp)
  from b s w e c show ?thesis by (intro conjI)
qed

text \<open>
  Claim C4 says that a line that becomes empty after the strips is discarded. The test
  \<^verbatim>\<open>if line.strip()\<close> of the comprehension looks at the line as it was split, before
  \<^verbatim>\<open>strip("- ")\<close>: a bullet without text, \<^verbatim>\<open>- \<close> or \<^verbatim>\<open>-\<close>, passes the test and stays in
  the sequence as the empty string.
\<close>

theorem block_lines_keeps_empty_bullet:
  "block_lines (lit ''- Crash on save'' @ [10] @ lit ''- '' @ [10] @ lit ''- Typo in UI'') =
     [lit ''Crash on save'', [], lit ''Typo in UI'']"
  by (simp add: block_lines_def strip_def strip_chars_def strip_while_def isspace_def lit_def)

section \<open>Properties of the parser\<close>

lemma section_content_nonempty: "section_content content section_name \<noteq> []"
  by (simp add: section_content_def Let_def split: option.splits)

lemma section_content_absent:
  "\<not> sublist (heading section_name) content \<Longrightarrow>
     section_content content section_name = [placeholder section_name]"
  by (simp add: section_content_def search_section_None_iff[symmetric])

lemma section_content_blank:
  "search_section section_name content = Some block \<Longrightarrow>
     \<forall>line \<in> set (split_char 10 block). strip line = [] \<Longrightarrow>
     section_content content section_name = [placeholder section_name]"
  by (simp add: section_content_def blank_lines_iff block_lines_Nil_iff[symmetric])

lemma map_fst_parse_content: "map fst (parse_content content) = section_names"
  by (simp add: parse_content_eq comp_def)

text \<open>
  What holds of the result for every text: it has the five section names as its keys, in
  their order, each with a list that is not empty; a name whose heading is nowhere in the
  text, or whose captured block is white space only (no line passes the test
  \<^verbatim>\<open>if line.strip()\<close> of the comprehension), has the one placeholder
  \<^verbatim>\<open>No data provided for <name>\<close>.
\<close>

theorem parse_content_keys_and_placeholders:
  "map fst (parse_content content) = section_names
   \<and> distinct section_names \<and> length section_names = 5
   \<and> (\<forall>n \<in> set section_names.
         \<exists>lines. map_of (parse_content content) n = Some lines \<and> lines \<noteq> [])
   \<and> (\<forall>n \<in> set section_names. \<not> sublist (heading n) content \<longrightarrow>
         map_of (parse_content content) n = Some [lit ''No data provided for '' @ n])
   \<and> (\<forall>n \<in> set section_names. \<forall>block.
         search_section n content = Some block \<and>
         (\<forall>line \<in> set (split_char 10 block). strip line = []) \<longrightarrow>
         map_of (parse_content content) n = Some [lit ''No data provided for '' @ n])"
proof (intro conjI ballI allI impI)
  show "map fst (parse_content content) = section_names"
    by (rule map_fst_parse_content)
  show "distinct section_names"
    by (rule section_names_distinct)
  show "length section_names = 5"
    by (simp add: section_names_def)
next
  fix n assume "n \<in> set section_names"
  then show "\<exists>lines. map_of (parse_content content) n = Some lines \<and> lines \<noteq> []"
    by (simp add: map_of_parse_content section_content_nonempty)
next
  fix n assume "n \<in> set section_names" "\<not> sublist (heading n) content"
  then show "map_of (parse_content content) n = Some [lit ''No data provided for '' @ n]"
    by (simp add: map_of_parse_content section_content_absent placeholder_def)
next
  fix n block
  assume n: "n \<in> set section_names"
    and b: "search_section n content = Some block \<and>
         (\<forall>line \<in> set (split_char 10 block). strip line = [])"
  from b have "search_section n content = Some block"
    and "\<forall>line \<in> set (split_char 10 block). strip line = []"
    by blast+
  then have "section_content content n = [placeholder n]"
    by (rule section_content_blank)
  with n show "map_of (parse_content content) n = Some [lit ''No data provided for '' @ n]"
    by (simp add: map_of_parse_content placeholder_def)
qed

lemma example_text_search:
  "search_section tasks_done example_text = None"
  "search_section next_steps example_text = Some (lit ''  '' @ [10])"
  "search_section bugs_found example_text = Some (lit ''- Crash on save'' @ [10] @ lit ''- Typo in UI'')"
  by (simp_all add: example_text_def heading_def tasks_done_def bugs_found_def next_steps_def lit_def)

theorem parse_content_keys_and_placeholders_witness:
  "map fst (parse_content example_text) = section_names
   \<and> map_of (parse_content example_text) bugs_found = Some [lit ''Crash on save'', lit ''Typo in UI'']
   \<and> \<not> sublist (heading tasks_done) example_text
   \<and> map_of (parse_content example_text) tasks_done = Some [lit ''No data provided for '' @ tasks_done]
   \<and> search_section next_steps example_text = Some (lit ''  '' @ [10])
   \<and> split_char 10 (lit ''  '' @ [10]) = [lit ''  '', []]
   \<and> strip (lit ''  '') = [] \<and> strip [] = []
   \<and> map_of (parse_content example_text) next_steps = Some [lit ''No data provided for '' @ next_steps]"
proof -
  note t = parse_content_keys_and_placeholders [of example_text]
  from t have k: "map fst (parse_content example_text) = section_names"
    by (rule conjunct1)
  have "block_lines (lit ''- Crash on save'' @ [10] @ lit ''- Typo in UI'')
      = [lit ''Crash on save'', lit ''Typo in UI'']"
    by (simp add: block_lines_def strip_def strip_chars_def strip_while_def isspace_def lit_def)
  then have b: "map_of (parse_content example_text) bugs_found = Some [lit ''Crash on save'', lit ''Typo in UI'']"
    by (simp add: map_of_parse_content section_names_mem section_content_def example_text_search)
  have a: "\<not> sublist (heading tasks_done) example_text"
    using example_text_search(1) by (simp add: search_section_None_iff)
  from t have "\<forall>n \<in> set section_names. \<not> sublist (heading n) example_text \<longrightarrow>
         map_of (parse_content example_text) n = Some [lit ''No data provided for '' @ n]"
    by (rule conjunct1[OF conjunct2[OF conjunct2[OF conjunct2[OF conjunct2]]]])
  with a section_names_mem(1)
  have p: "map_of (parse_content example_text) tasks_done = Some [lit ''No data provided for '' @ tasks_done]"
    by blast
  have l: "split_char 10 (lit ''  '' @ [10]) = [lit ''  '', []]"
    by (simp add: lit_def)
  have s: "strip (lit ''  '') = []" "strip [] = []"
    by (simp_all add: strip_def strip_while_def isspace_def lit_def)
  have w: "\<forall>line \<in> set (split_char 10 (lit ''  '' @ [10])). strip line = []"
    unfolding l using s by simp
  from t have "\<forall>n \<in> set section_names. \<forall>block.
         search_section n example_text = Some block \<and>
         (\<forall>line \<in> set (split_char 10 block). strip line = []) \<longrightarrow>
         map_of (parse_content example_text) n = Some [lit ''No data provided for '' @ n]"
    by (rule conjunct2[OF conjunct2[OF conjunct2[OF conjunct2[OF conjunct2]]]])
  with w example_text_search(2) section_names_mem(5)
  have q: "map_of (parse_content example_text) next_steps = Some [lit ''No data provided for '' @ next_steps]"
    by blast
  from k b a p example_text_search(2) l s q show ?thesis by (intro conjI)
qed

text \<open>
  Claim C1 says that a section whose heading is there, and whose lines are all empty after
  the strips, has the placeholder. The test of the comprehension looks at a line before
  the strip of dashes: in the text below the only line of Tasks Done is a bullet without
  text, it is empty after the strips, and the section is the list of one empty string,
  not the placeholder.
\<close>

theorem parse_content_empty_bullet:
  "search_section tasks_done
     (heading tasks_done @ lit ''- '' @ [10] @
      heading bugs_found @ lit ''- Crash on save'' @ [10]) = Some (lit ''- '')
   \<and> map (\<lambda>line. strip (strip_chars (lit ''- '') line)) (split_char 10 (lit ''- '')) = [[]]
   \<and> map_of (parse_content
        (heading tasks_done @ lit ''- '' @ [10] @
         heading bugs_found @ lit ''- Crash on save'' @ [10])) tasks_done = Some [[]]"
proof -
  let ?text = "heading tasks_done @ lit ''- '' @ [10] @
      heading bugs_found @ lit ''- Crash on save'' @ [10]"
  have s: "search_section tasks_done ?text = Some (lit ''- '')"
    by (simp add: heading_def tasks_done_def bugs_found_def lit_def)
  have l: "map (\<lambda>line. strip (strip_chars (lit ''- '') line)) (split_char 10 (lit ''- '')) = [[]]"
    by (simp add: strip_def strip_chars_def strip_while_def isspace_def lit_def)
  have b: "block_lines (lit ''- '') = [[]]"
    by (simp add: block_lines_def strip_def strip_chars_def strip_while_def isspace_def lit_def)
  from s b have "map_of (parse_content ?text) tasks_done = Some [[]]"
    by (simp add: map_of_parse_content section_names_mem section_content_def)
  with s l show ?thesis by (intro conjI)
qed

theorem search_section_first_occurrence_witness:
  "first_heading repeated_text tasks_done (lit ''intro'' @ [10])
     (lit ''- a'' @ [10] @ lit ''- b'' @ [10] @
      heading bugs_found @ lit ''- x'' @ [10] @ heading tasks_done @ lit ''- later'')
   \<and> \<not> prefix (lit ''###'')
        (lit ''- a'' @ [10] @ lit ''- b'' @ [10] @
         heading bugs_found @ lit ''- x'' @ [10] @ heading tasks_done @ lit ''- later'')
   \<and> search_section tasks_done repeated_text = Some (lit ''- a'' @ [10] @ lit ''- b'')
   \<and> split_char 10 (lit ''- a'' @ [10] @ lit ''- b'') = [lit ''- a'', lit ''- b'']
   \<and> \<not> sublist (heading next_steps) repeated_text
   \<and> search_section next_steps repeated_text = None"
proof -
  let ?rest = "lit ''- a'' @ [10] @ lit ''- b'' @ [10] @
      heading bugs_found @ lit ''- x'' @ [10] @ heading tasks_done @ lit ''- later''"
  note t = search_section_first_occurrence
    [where section_name = next_steps and content = repeated_text]
  note u = search_section_first_occurrence
    [where section_name = tasks_done and content = repeated_text
       and pre = "lit ''intro'' @ [10]" and rest = ?rest]
  have f: "first_heading repeated_text tasks_done (lit ''intro'' @ [10]) ?rest"
    by (simp add: first_heading_def repeated_text_def heading_def tasks_done_def bugs_found_def
        lit_def upt_rec_numeral)
  have p: "\<not> prefix (lit ''###'') ?rest"
    by (simp add: lit_def)
  have s: "search_section tasks_done repeated_text = Some (lit ''- a'' @ [10] @ lit ''- b'')"
    by (simp add: repeated_text_def heading_def tasks_done_def bugs_found_def lit_def)
  have l: "split_char 10 (lit ''- a'' @ [10] @ lit ''- b'') = [lit ''- a'', lit ''- b'']"
    by (simp add: lit_def)
  have n: "search_section next_steps repeated_text = None"
    by (simp add: repeated_text_def heading_def tasks_done_def bugs_found_def next_steps_def lit_def)
  then have a: "\<not> sublist (heading next_steps) repeated_text"
    by (simp add: search_section_None_iff)
  from t a have n': "search_section next_steps repeated_text = None"
    by blast
  from u f obtain block tail where "search_section tasks_done repeated_text = Some block"
    "?rest = block @ tail"
    by blast
  with s have "search_section tasks_done repeated_text = Some (lit ''- a'' @ [10] @ lit ''- b'')"
    by simp
  with f p l a n' show ?thesis by (intro conjI)
qed

text \<open>
  A heading of four hashes is not a line \<^verbatim>\<open>### <name>\<close>, and the section is captured from
  it all the same.
\<close>

theorem search_section_longer_heading_counterexample:
  "lit ''### '' @ tasks_done \<notin> set (split_char 10 (35 # heading tasks_done @ lit ''- a''))
   \<and> search_section tasks_done (35 # heading tasks_done @ lit ''- a'') = Some (lit ''- a'')
   \<and> section_content (35 # heading tasks_done @ lit ''- a'') tasks_done = [lit ''a'']"
proof -
  have l: "split_char 10 (35 # heading tasks_done @ lit ''- a'') =
      [35 # lit ''### '' @ tasks_done, lit ''- a'']"
    by (simp add: heading_def tasks_done_def lit_def)
  have s: "search_section tasks_done (35 # heading tasks_done @ lit ''- a'') = Some (lit ''- a'')"
    by (simp add: heading_def tasks_done_def lit_def)
  have b: "block_lines (lit ''- a'') = [lit ''a'']"
    by (simp add: block_lines_def strip_def strip_chars_def strip_while_def isspace_def lit_def)
  from s b have c: "section_content (35 # heading tasks_done @ lit ''- a'') tasks_done = [lit ''a'']"
    by (simp add: section_content_def)
  have "lit ''### '' @ tasks_done \<notin> set (split_char 10 (35 # heading tasks_done @ lit ''- a''))"
    unfolding l by (simp add: tasks_done_def lit_def)
  with s c show ?thesis by (intro conjI)
qed

text \<open>
  A heading that the next heading follows at once: the newline that the look-ahead
  \<^verbatim>\<open>\n###\<close> needs is the one that ended the heading, so the block does not stop there
  and runs through the next section.
\<close>

lemma section_content_empty_section:
  "section_content (heading bugs_found @ heading fixes_verified @ lit ''- x'') bugs_found =
     [lit ''### '' @ fixes_verified, lit ''x'']"
proof -
  have s: "search_section bugs_found (heading bugs_found @ heading fixes_verified @ lit ''- x'') =
      Some (lit ''### '' @ fixes_verified @ [10] @ lit ''- x'')"
    by (simp add: heading_def bugs_found_def fixes_verified_def lit_def)
  have b: "block_lines (lit ''### '' @ fixes_verified @ [10] @ lit ''- x'') =
      [lit ''### '' @ fixes_verified, lit ''x'']"
    by (simp add: block_lines_def strip_def strip_chars_def strip_while_def isspace_def
        fixes_verified_def lit_def)
  from s b show ?thesis by (simp add: section_content_def)
qed

section \<open>Parsing a well-formed log gives its items back\<close>

subsection \<open>Searching line by line\<close>

lemma prefix_line:
  fixes a b r :: pystr
  assumes "10 \<notin> set a" "10 \<notin> set b"
  shows "prefix (a @ [10]) (b @ 10 # r) \<longleftrightarrow> a = b"
proof
  assume "prefix (a @ [10]) (b @ 10 # r)"
  then obtain z where z: "b @ 10 # r = a @ 10 # z"
    by (auto simp: prefix_def)
  have "takeWhile (\<lambda>c. c \<noteq> 10) (b @ 10 # r) = b"
    using assms(2) by (auto simp: takeWhile_tail)
  moreover have "takeWhile (\<lambda>c. c \<noteq> 10) (a @ 10 # z) = a"
    using assms(1) by (auto simp: takeWhile_tail)
  ultimately show "a = b" using z by simp
next
  assume "a = b"
  then show "prefix (a @ [10]) (b @ 10 # r)" by simp
qed

lemma heading_line: "heading section_name = (lit ''### '' @ section_name) @ [10]"
  by (simp add: heading_def)

lemma search_line:
  assumes "10 \<notin> set section_name"
  shows "10 \<notin> set line \<Longrightarrow>
    search_section section_name (line @ 10 # rest) =
      (if suffix (lit ''### '' @ section_name) line then Some (lazy_group rest)
       else search_section section_name rest)"
proof (induction line)
  case Nil
  have "\<not> prefix (heading section_name) (10 # rest)"
    by (simp add: heading_def lit_def)
  then show ?case by (simp add: lit_def)
next
  case (Cons c cs)
  let ?h = "lit ''### '' @ section_name"
  have h: "10 \<notin> set ?h" using assms by (simp add: lit_def)
  have p: "prefix (heading section_name) ((c # cs) @ 10 # rest) \<longleftrightarrow> ?h = c # cs"
    unfolding heading_line using h Cons.prems by (rule prefix_line)
  show ?case
  proof (cases "?h = c # cs")
    case True
    then have "length (heading section_name) = Suc (length (c # cs))"
      unfolding heading_line by simp
    then have "drop (length (heading section_name)) (c # cs @ 10 # rest) = rest"
      by simp
    with True p show ?thesis by simp
  next
    case False
    with p have "search_section section_name ((c # cs) @ 10 # rest) =
        search_section section_name (cs @ 10 # rest)"
      by simp
    also have "\<dots> = (if suffix ?h cs then Some (lazy_group rest)
       else search_section section_name rest)"
      using Cons by simp
    also have "suffix ?h cs \<longleftrightarrow> suffix ?h (c # cs)"
      using False by (simp add: suffix_Cons)
    finally show ?thesis .
  qed
qed

lemma lazy_line:
  "10 \<notin> set line \<Longrightarrow>
     lazy_group (line @ 10 # rest) =
       line @ (if prefix (lit ''###'') rest then [] else 10 # lazy_group rest)"
  by (induction line) auto

lemma bullet_no_newline: "10 \<notin> set item \<Longrightarrow> 10 \<notin> set (bullet item)"
  by (simp add: bullet_def lit_def)

lemma section_name_no_newline: "n \<in> set section_names \<Longrightarrow> 10 \<notin> set n"
  by (auto simp: section_names_def tasks_done_def bugs_found_def fixes_verified_def
      observations_def next_steps_def lit_def)

lemma suffix_bullet:
  assumes "suffix (lit ''### '' @ n) (bullet item)"
  shows "suffix (lit ''### '' @ n) item"
proof -
  from assms consider "suffix (lit ''### '' @ n) item"
    | xs where "lit ''### '' @ n = xs @ item" "suffix xs (lit ''- '')" "xs \<noteq> []"
    unfolding bullet_def suffix_append by (cases "suffix (lit ''### '' @ n) item") auto
  then show ?thesis
  proof cases
    case 1
    then show ?thesis .
  next
    case 2
    from 2(2) have "xs = [] \<or> xs = [32] \<or> xs = [45, 32]"
      by (auto simp: lit_def suffix_Cons)
    with 2(3) have "hd xs = 32 \<or> hd xs = 45" by auto
    moreover from 2(1,3) have "hd xs = 35"
      by (cases xs) (auto simp: lit_def)
    ultimately show ?thesis by simp
  qed
qed

lemma suffix_heading_names:
  "n \<in> set section_names \<Longrightarrow> m \<in> set section_names \<Longrightarrow>
     suffix (lit ''### '' @ n) (lit ''### '' @ m) \<Longrightarrow> n = m"
  by (auto simp: section_names_def tasks_done_def bugs_found_def fixes_verified_def
      observations_def next_steps_def lit_def suffix_to_prefix)

lemma split_join_lines:
  "lines \<noteq> [] \<Longrightarrow> \<forall>l \<in> set lines. 10 \<notin> set l \<Longrightarrow> split_char 10 (join [10] lines) = lines"
proof (induction lines)
  case Nil
  then show ?case by simp
next
  case (Cons l lines)
  show ?case
  proof (cases "lines = []")
    case True
    with Cons.prems show ?thesis by (simp add: split_char_no_sep)
  next
    case False
    with Cons have "split_char 10 (join [10] lines) = lines" by simp
    moreover have "join [10] (l # lines) = l @ 10 # join [10] lines"
      using False by (simp add: join_Cons)
    moreover have "10 \<notin> set l" using Cons.prems by simp
    ultimately show ?thesis by (simp add: split_char_line)
  qed
qed

lemma join_snoc:
  "join sep (xs @ [x]) = (if xs = [] then [] else join sep xs @ sep) @ x"
  by (induction sep xs rule: join.induct) (simp_all add: join_Cons)

lemma isspace_dash: "\<not> isspace 45"
  by (simp add: isspace_def)

lemma dash_in_bullet: "45 \<in> set (bullet i)"
  by (simp add: bullet_def lit_def)

lemma join_Cons2: "join sep (x # y # ys) = x @ sep @ join sep (y # ys)"
  by simp

lemma search_lines:
  assumes "10 \<notin> set n" "rest \<noteq> []"
  shows "\<forall>l \<in> set before. 10 \<notin> set l \<and> \<not> suffix (lit ''### '' @ n) l \<Longrightarrow>
    search_section n (join [10] (before @ (lit ''### '' @ n) # rest)) =
      Some (lazy_group (join [10] rest))"
proof (induction before)
  case Nil
  have nl: "10 \<notin> set (lit ''### '' @ n)" using assms(1) by (simp add: lit_def)
  have "join [10] ((lit ''### '' @ n) # rest) = (lit ''### '' @ n) @ 10 # join [10] rest"
    using assms(2) by (simp add: join_Cons)
  then show ?case
    using search_line[OF assms(1) nl, of "join [10] rest"] by simp
next
  case (Cons l before)
  then have l: "10 \<notin> set l" "\<not> suffix (lit ''### '' @ n) l" by simp_all
  have "join [10] ((l # before) @ (lit ''### '' @ n) # rest) =
      l @ 10 # join [10] (before @ (lit ''### '' @ n) # rest)"
    by (simp add: join_Cons)
  then have "search_section n (join [10] ((l # before) @ (lit ''### '' @ n) # rest)) =
      search_section n (join [10] (before @ (lit ''### '' @ n) # rest))"
    using search_line[OF assms(1) l(1)] l(2) by simp
  with Cons show ?case by simp
qed

lemma lazy_group_no_newline: "10 \<notin> set s \<Longrightarrow> lazy_group s = s"
  by (induction s) auto

lemma prefix_join_hd: "prefix p x \<Longrightarrow> prefix p (join sep (x # xs))"
  by (cases xs) simp_all

lemma not_heading_join:
  assumes "e = [] \<or> hd e \<noteq> 35"
  shows "\<not> prefix (lit ''###'') (join [10] (e # xs))"
proof (cases "e = []")
  case True
  then show ?thesis by (cases xs) (simp_all add: lit_def)
next
  case False
  with assms obtain c cs where "e = c # cs" "c \<noteq> 35" by (cases e) auto
  then show ?thesis by (cases xs) (simp_all add: lit_def)
qed

lemma lazy_lines:
  assumes "after = [] \<or> prefix (lit ''###'') (hd after)"
  shows "es \<noteq> [] \<Longrightarrow> \<forall>e \<in> set es. 10 \<notin> set e \<and> (e = [] \<or> hd e \<noteq> 35) \<Longrightarrow>
    lazy_group (join [10] (es @ after)) = join [10] es"
proof (induction es)
  case Nil
  then show ?case by simp
next
  case (Cons e es)
  then have e: "10 \<notin> set e" by simp
  show ?case
  proof (cases "es = []")
    case True
    show ?thesis
    proof (cases after)
      case Nil
      with True e show ?thesis by (simp add: lazy_group_no_newline)
    next
      case (Cons a as)
      with assms have "prefix (lit ''###'') a" by simp
      then have "prefix (lit ''###'') (join [10] (a # as))" by (rule prefix_join_hd)
      moreover have "join [10] ((e # es) @ after) = e @ 10 # join [10] (a # as)"
        using True Cons by simp
      ultimately show ?thesis
        using lazy_line[OF e, of "join [10] (a # as)"] True by simp
    qed
  next
    case False
    then obtain e' es' where es: "es = e' # es'" by (cases es) auto
    with Cons.prems have "e' = [] \<or> hd e' \<noteq> 35" by simp
    then have "\<not> prefix (lit ''###'') (join [10] (e' # (es' @ after)))"
      by (rule not_heading_join)
    moreover have "join [10] ((e # es) @ after) = e @ 10 # join [10] (e' # (es' @ after))"
      using es by simp
    moreover have "lazy_group (join [10] (es @ after)) = join [10] es"
      using Cons False by simp
    ultimately show ?thesis
      using lazy_line[OF e, of "join [10] (e' # (es' @ after))"] es by simp
  qed
qed

subsection \<open>Stripping a block of lines\<close>

lemma isspace_newline: "isspace 10"
  by (simp add: isspace_def)

lemma dropWhile_join:
  "\<exists>l \<in> set ls. \<not> list_all isspace l \<Longrightarrow>
   \<forall>l \<in> set ls. list_all isspace l \<or> (l \<noteq> [] \<and> \<not> isspace (hd l)) \<Longrightarrow>
   dropWhile isspace (join [10] ls) = join [10] (dropWhile (list_all isspace) ls)"
proof (induction ls)
  case Nil
  then show ?case by simp
next
  case (Cons l ls)
  show ?case
  proof (cases "list_all isspace l")
    case True
    with Cons.prems(1) have ex: "\<exists>l \<in> set ls. \<not> list_all isspace l" by simp
    then have ne: "ls \<noteq> []" by auto
    from True have "\<forall>c \<in> set (l @ [10]). isspace c"
      by (simp add: list_all_iff isspace_newline)
    then have "dropWhile isspace ((l @ [10]) @ join [10] ls) = dropWhile isspace (join [10] ls)"
      by (intro dropWhile_append2) blast
    moreover have "join [10] (l # ls) = (l @ [10]) @ join [10] ls"
      using ne by (simp add: join_Cons)
    moreover have "dropWhile isspace (join [10] ls) = join [10] (dropWhile (list_all isspace) ls)"
      using ex Cons.prems(2) by (intro Cons.IH) simp_all
    ultimately show ?thesis using True by simp
  next
    case False
    with Cons.prems(2) obtain c cs where l: "l = c # cs" "\<not> isspace c"
      by (cases l) auto
    then have "dropWhile isspace (join [10] (l # ls)) = join [10] (l # ls)"
      by (cases ls) simp_all
    with False show ?thesis by simp
  qed
qed

lemma rev_join: "rev (join [10] ls) = join [10] (map rev (rev ls))"
proof (induction ls)
  case Nil
  then show ?case by simp
next
  case (Cons l ls)
  show ?case
  proof (cases "ls = []")
    case True
    then show ?thesis by simp
  next
    case False
    then have "rev (join [10] (l # ls)) = rev (join [10] ls) @ [10] @ rev l"
      by (simp add: join_Cons)
    also have "\<dots> = join [10] (map rev (rev ls)) @ [10] @ rev l"
      using Cons by simp
    also have "\<dots> = join [10] (map rev (rev ls) @ [rev l])"
      using False by (simp add: join_snoc)
    finally show ?thesis by simp
  qed
qed

lemma strip_join:
  assumes "\<exists>l \<in> set ls. \<not> list_all isspace l"
    and "\<forall>l \<in> set ls. list_all isspace l \<or> (l \<noteq> [] \<and> \<not> isspace (hd l) \<and> \<not> isspace (last l))"
  shows "strip (join [10] ls) =
     join [10] (rev (dropWhile (list_all isspace) (rev (dropWhile (list_all isspace) ls))))"
proof -
  define B :: "pystr \<Rightarrow> bool" where "B = list_all isspace"
  define E1 where "E1 = dropWhile B ls"
  have d1: "dropWhile isspace (join [10] ls) = join [10] E1"
    unfolding E1_def B_def using assms by (intro dropWhile_join) auto
  have sub: "set E1 \<subseteq> set ls"
    unfolding E1_def by (auto dest: set_dropWhileD)
  have "E1 \<noteq> []"
    unfolding E1_def using assms(1) by (auto simp: B_def)
  then have "\<not> B (hd E1)"
    unfolding E1_def by (rule hd_dropWhile)
  with \<open>E1 \<noteq> []\<close> have ex1: "\<exists>l \<in> set (map rev (rev E1)). \<not> list_all isspace l"
    by (auto simp: B_def intro!: bexI[of _ "hd E1"])
  have all1: "\<forall>l \<in> set (map rev (rev E1)). list_all isspace l \<or> (l \<noteq> [] \<and> \<not> isspace (hd l))"
    using sub assms(2) by (auto simp: hd_rev)
  have "dropWhile isspace (rev (join [10] E1)) =
      dropWhile isspace (join [10] (map rev (rev E1)))"
    by (simp only: rev_join)
  also have "\<dots> = join [10] (dropWhile (list_all isspace) (map rev (rev E1)))"
    using ex1 all1 by (rule dropWhile_join)
  also have "dropWhile (list_all isspace) (map rev (rev E1)) = map rev (dropWhile B (rev E1))"
    by (simp add: dropWhile_map comp_def B_def)
  finally have d2: "dropWhile isspace (rev (join [10] E1)) =
      join [10] (map rev (dropWhile B (rev E1)))" .
  have "strip (join [10] ls) = rev (dropWhile isspace (rev (join [10] E1)))"
    by (simp only: strip_def strip_while_def d1)
  also have "\<dots> = rev (join [10] (map rev (dropWhile B (rev E1))))"
    by (simp only: d2)
  also have "\<dots> = join [10] (rev (dropWhile B (rev E1)))"
    by (simp add: rev_join rev_map[symmetric] comp_def)
  finally show ?thesis
    unfolding E1_def B_def .
qed

lemma filter_dropWhile_not: "filter P (dropWhile (\<lambda>x. \<not> P x) xs) = filter P xs"
  by (induction xs) simp_all

subsection \<open>The lines of a section\<close>

lemma clean_item_no_newline: "clean_item i \<Longrightarrow> 10 \<notin> set i"
  by (simp add: clean_item_def)

lemma entry_line_no_newline: "entry_ok e \<Longrightarrow> 10 \<notin> set (entry_line e)"
  by (cases e) (simp_all add: bullet_no_newline clean_item_no_newline)

lemma entry_line_start: "entry_ok e \<Longrightarrow> entry_line e = [] \<or> hd (entry_line e) \<noteq> 35"
proof (cases e)
  case (Bullet i)
  then show ?thesis by (simp add: bullet_def lit_def)
next
  case (Blank w)
  assume "entry_ok e"
  with Blank have "list_all isspace w" by simp
  moreover have "\<not> isspace 35" by (simp add: isspace_def)
  ultimately have "w = [] \<or> hd w \<noteq> 35"
    by (cases w) auto
  with Blank show ?thesis by simp
qed

lemma entry_line_blank_or_solid:
  assumes "entry_ok e"
  shows "list_all isspace (entry_line e) \<or>
     (entry_line e \<noteq> [] \<and> \<not> isspace (hd (entry_line e)) \<and> \<not> isspace (last (entry_line e)))"
proof (cases e)
  case (Bullet i)
  with assms have "i \<noteq> []" "\<not> isspace (last i)"
    by (simp_all add: clean_item_def strippable_def)
  then have "bullet i \<noteq> []" "hd (bullet i) = 45" "last (bullet i) = last i"
    by (simp_all add: bullet_def lit_def)
  with \<open>\<not> isspace (last i)\<close> isspace_dash Bullet show ?thesis by simp
next
  case (Blank w)
  with assms show ?thesis by simp
qed

lemma entry_line_not_heading:
  assumes "entry_ok e" "n \<in> set section_names"
  shows "\<not> suffix (lit ''### '' @ n) (entry_line e)"
proof (cases e)
  case (Bullet i)
  with assms have "\<not> suffix (lit ''### '' @ n) i"
    by (auto simp: clean_item_def list_all_iff)
  then have "\<not> suffix (lit ''### '' @ n) (bullet i)"
    using suffix_bullet by blast
  with Bullet show ?thesis by simp
next
  case (Blank w)
  show ?thesis
  proof
    assume "suffix (lit ''### '' @ n) (entry_line e)"
    then have "set (lit ''### '' @ n) \<subseteq> set w"
      using Blank by (auto simp: suffix_def)
    then have "35 \<in> set w" by (auto simp: lit_def)
    moreover from assms(1) Blank have "\<forall>c \<in> set w. isspace c"
      by (simp add: list_all_iff)
    ultimately have "isspace 35" by blast
    then show False by (simp add: isspace_def)
  qed
qed

lemma strip_bullet_line:
  assumes "clean_item i"
  shows "strip (strip_chars (lit ''- '') (bullet i)) = i"
proof -
  from assms have ne: "i \<noteq> []" and h: "\<not> strippable (hd i)" "\<not> strippable (last i)"
    by (simp_all add: clean_item_def)
  have sp: "isspace 32" by (simp add: isspace_def)
  from h sp have "hd i \<notin> {45, 32}" "last i \<notin> {45, 32}"
    by (auto simp: strippable_def)
  with ne have "strip_chars (lit ''- '') (lit ''- '' @ i @ []) = i"
    by (intro strip_chars_around) (simp_all add: lit_def)
  moreover from ne h have "strip i = i"
    unfolding strip_def by (intro strip_while_id) (auto simp: strippable_def)
  ultimately show ?thesis by (simp add: bullet_def)
qed

lemma bullet_not_blank: "strip (bullet i) \<noteq> []"
proof -
  have "\<not> list_all isspace (bullet i)"
    using dash_in_bullet[of i] isspace_dash by (auto simp: list_all_iff)
  then show ?thesis by (simp add: strip_Nil_iff)
qed

lemma items_of_lines:
  "list_all entry_ok es \<Longrightarrow>
     map (\<lambda>line. strip (strip_chars (lit ''- '') line))
       (filter (\<lambda>line. strip line \<noteq> []) (map entry_line es)) = bullet_items es"
proof (induction es)
  case Nil
  then show ?case by simp
next
  case (Cons e es)
  show ?case
  proof (cases e)
    case (Bullet i)
    with Cons show ?thesis by (simp add: bullet_not_blank strip_bullet_line)
  next
    case (Blank w)
    with Cons.prems have "strip w = []" by (simp add: strip_Nil_iff)
    with Blank Cons show ?thesis by simp
  qed
qed

lemma bullet_items_line:
  "bullet_items es \<noteq> [] \<Longrightarrow> \<exists>l \<in> set (map entry_line es). \<not> list_all isspace l"
proof (induction es)
  case Nil
  then show ?case by simp
next
  case (Cons e es)
  show ?case
  proof (cases e)
    case (Bullet i)
    have "\<not> list_all isspace (bullet i)"
      using dash_in_bullet[of i] isspace_dash by (auto simp: list_all_iff)
    with Bullet show ?thesis by simp
  next
    case (Blank w)
    with Cons show ?thesis by simp
  qed
qed

lemma not_nonblank: "(\<lambda>line. \<not> strip line \<noteq> []) = list_all isspace"
  by (rule ext) (simp add: strip_Nil_iff)

lemma block_lines_entries:
  assumes "list_all entry_ok es" "bullet_items es \<noteq> []"
  shows "block_lines (join [10] (map entry_line es)) = bullet_items es"
proof -
  define E where "E = map entry_line es"
  define P :: "pystr \<Rightarrow> bool" where "P = (\<lambda>line. strip line \<noteq> [])"
  define T where "T = rev (dropWhile (list_all isspace) (rev (dropWhile (list_all isspace) E)))"
  have ex: "\<exists>l \<in> set E. \<not> list_all isspace l"
    unfolding E_def using assms(2) by (rule bullet_items_line)
  have solid: "\<forall>l \<in> set E. list_all isspace l \<or>
      (l \<noteq> [] \<and> \<not> isspace (hd l) \<and> \<not> isspace (last l))"
  proof
    fix l assume "l \<in> set E"
    then obtain e where "e \<in> set es" "l = entry_line e"
      unfolding E_def by auto
    with assms(1) show "list_all isspace l \<or>
        (l \<noteq> [] \<and> \<not> isspace (hd l) \<and> \<not> isspace (last l))"
      using entry_line_blank_or_solid[of e] by (simp add: list_all_iff)
  qed
  have s: "strip (join [10] E) = join [10] T"
    unfolding T_def using ex solid by (rule strip_join)
  have nP: "(\<lambda>x. \<not> P x) = list_all isspace"
    unfolding P_def by (rule not_nonblank)
  have "filter P T = rev (filter P (dropWhile (\<lambda>x. \<not> P x) (rev (dropWhile (list_all isspace) E))))"
    unfolding T_def nP by (simp add: rev_filter)
  also have "\<dots> = rev (filter P (rev (dropWhile (\<lambda>x. \<not> P x) E)))"
    unfolding nP[symmetric] by (simp only: filter_dropWhile_not)
  also have "\<dots> = filter P E"
    by (simp add: rev_filter filter_dropWhile_not)
  finally have f: "filter P T = filter P E" .
  have "filter P E \<noteq> []"
    using ex by (auto simp: filter_empty_conv P_def strip_Nil_iff)
  with f have "T \<noteq> []" by auto
  have "set T \<subseteq> set E"
  proof
    fix x assume "x \<in> set T"
    then have "x \<in> set (rev (dropWhile (list_all isspace) E))"
      unfolding T_def by (auto dest: set_dropWhileD)
    then show "x \<in> set E"
      by (auto dest: set_dropWhileD)
  qed
  moreover have "\<forall>l \<in> set E. 10 \<notin> set l"
    unfolding E_def using assms(1) by (auto simp: list_all_iff entry_line_no_newline)
  ultimately have "\<forall>l \<in> set T. 10 \<notin> set l" by blast
  with \<open>T \<noteq> []\<close> have sp: "split_char 10 (join [10] T) = T"
    by (rule split_join_lines)
  have "block_lines (join [10] E) =
      map (\<lambda>line. strip (strip_chars (lit ''- '') line)) (filter P T)"
    unfolding block_lines_def s sp P_def ..
  also have "\<dots> = bullet_items es"
    unfolding f unfolding P_def E_def using assms(1) by (rule items_of_lines)
  finally show ?thesis unfolding E_def .
qed

subsection \<open>The block of a section of a well-formed log\<close>

lemma section_lines_neutral:
  assumes "section_ok s" "n \<in> set section_names" "fst s \<noteq> n"
  shows "\<forall>l \<in> set (section_lines s). 10 \<notin> set l \<and> \<not> suffix (lit ''### '' @ n) l"
proof -
  obtain m es os where s: "s = (m, es, os)" by (cases s)
  from assms(1) s have m: "m \<in> set section_names" and es: "list_all entry_ok es"
    and os: "list_all other_line os"
    by (simp_all add: section_ok_def)
  have h: "10 \<notin> set (lit ''### '' @ m) \<and> \<not> suffix (lit ''### '' @ n) (lit ''### '' @ m)"
    using section_name_no_newline[OF m] suffix_heading_names[OF assms(2) m] assms(3) s
    by (auto simp: lit_def)
  have e: "\<forall>l \<in> set (map entry_line es). 10 \<notin> set l \<and> \<not> suffix (lit ''### '' @ n) l"
    using es assms(2) by (auto simp: list_all_iff entry_line_no_newline entry_line_not_heading)
  have o: "\<forall>l \<in> set os. 10 \<notin> set l \<and> \<not> suffix (lit ''### '' @ n) l"
    using os assms(2) by (auto simp: list_all_iff other_line_def)
  from h e o show ?thesis
    unfolding s section_lines_def by auto
qed

lemma after_starts:
  "others = [] \<or> prefix (lit ''###'') (hd others) \<Longrightarrow>
     others @ concat (map section_lines secs) = [] \<or>
     prefix (lit ''###'') (hd (others @ concat (map section_lines secs)))"
proof (cases others)
  case (Cons a as)
  assume "others = [] \<or> prefix (lit ''###'') (hd others)"
  with Cons show ?thesis by simp
next
  case Nil
  show ?thesis
  proof (cases secs)
    case Nil
    with \<open>others = []\<close> show ?thesis by simp
  next
    case (Cons s ss)
    obtain m es os where "s = (m, es, os)" by (cases s)
    with Cons \<open>others = []\<close> show ?thesis
      by (simp add: section_lines_def lit_def)
  qed
qed

lemma search_document:
  assumes "(n, entries, others) \<in> set secs" "distinct (map fst secs)" "list_all section_ok secs"
  shows "\<forall>l \<in> set preamble. 10 \<notin> set l \<and> \<not> suffix (lit ''### '' @ n) l \<Longrightarrow>
    search_section n (join [10] (preamble @ concat (map section_lines secs))) =
      Some (join [10] (map entry_line entries))"
  using assms
proof (induction secs arbitrary: preamble)
  case Nil
  then show ?case by simp
next
  case (Cons s secs)
  from Cons.prems(2,4) have n: "n \<in> set section_names"
    by (auto simp: list_all_iff section_ok_def)
  show ?case
  proof (cases "fst s = n")
    case True
    with Cons.prems(2,3) have s: "s = (n, entries, others)"
      by (cases s) (auto simp: rev_image_eqI)
    with Cons.prems(4) have ok: "list_all entry_ok entries" "bullet_items entries \<noteq> []"
      "others = [] \<or> prefix (lit ''###'') (hd others)"
      by (simp_all add: section_ok_def)
    let ?E = "map entry_line entries"
    let ?after = "others @ concat (map section_lines secs)"
    have ne: "?E \<noteq> []" using ok(2) by (cases entries) auto
    have lines: "preamble @ concat (map section_lines (s # secs)) =
        preamble @ (lit ''### '' @ n) # (?E @ ?after)"
      by (simp add: s section_lines_def)
    have "search_section n (join [10] (preamble @ (lit ''### '' @ n) # (?E @ ?after))) =
        Some (lazy_group (join [10] (?E @ ?after)))"
      using section_name_no_newline[OF n] ne Cons.prems(1) by (intro search_lines) simp_all
    moreover have "lazy_group (join [10] (?E @ ?after)) = join [10] ?E"
      using after_starts[OF ok(3)] ne ok(1)
      by (intro lazy_lines) (auto simp: list_all_iff entry_line_no_newline entry_line_start)
    ultimately show ?thesis unfolding lines by simp
  next
    case False
    with Cons.prems(2) have m: "(n, entries, others) \<in> set secs" by auto
    from Cons.prems(4) have sok: "section_ok s" by simp
    have "\<forall>l \<in> set (preamble @ section_lines s). 10 \<notin> set l \<and> \<not> suffix (lit ''### '' @ n) l"
      using Cons.prems(1) section_lines_neutral[OF sok n False] by auto
    moreover from Cons.prems(3) have "distinct (map fst secs)" by simp
    moreover from Cons.prems(4) have "list_all section_ok secs" by simp
    ultimately have "search_section n (join [10] ((preamble @ section_lines s) @
        concat (map section_lines secs))) = Some (join [10] (map entry_line entries))"
      using m by (intro Cons.IH) simp_all
    then show ?thesis by simp
  qed
qed

text \<open>
  Claim C8, as the program behaves. Take a log whose lines are: any lines that do not end with
  the text of one of the five headings; then sections of different names among the five,
  each made of its heading, of bullet lines \<^verbatim>\<open>- <item>\<close> with a clean item and blank lines,
  at least one bullet, and possibly of other lines from a line that begins with \<^verbatim>\<open>###\<close> on.
  The log may or may not end with a newline. Then the parser gives, under each name, the
  items of the bullet lines of its section, in their order; in particular when all five
  sections are there, in whatever order.
\<close>

theorem parse_round_trip:
  assumes "list_all other_line preamble"
    and "distinct (map fst secs)"
    and "list_all section_ok secs"
  shows "\<forall>(n, entries, others) \<in> set secs.
    map_of (parse_content (document preamble secs)) n = Some (bullet_items entries)"
proof (intro ballI, clarify)
  fix n entries others assume m: "(n, entries, others) \<in> set secs"
  with assms(3) have ok: "n \<in> set section_names" "list_all entry_ok entries"
    "bullet_items entries \<noteq> []"
    by (auto simp: list_all_iff section_ok_def)
  have "\<forall>l \<in> set preamble. 10 \<notin> set l \<and> \<not> suffix (lit ''### '' @ n) l"
    using assms(1) ok(1) by (auto simp: list_all_iff other_line_def)
  then have "search_section n (document preamble secs) = Some (join [10] (map entry_line entries))"
    unfolding document_def using m assms(2,3) by (intro search_document) simp_all
  moreover have "block_lines (join [10] (map entry_line entries)) = bullet_items entries"
    using ok(2,3) by (rule block_lines_entries)
  ultimately have "section_content (document preamble secs) n = bullet_items entries"
    using ok(3) by (simp add: section_content_def)
  with ok(1) show "map_of (parse_content (document preamble secs)) n = Some (bullet_items entries)"
    by (simp add: map_of_parse_content)
qed

lemma example_preamble_ok: "list_all other_line example_preamble"
  by (simp add: example_preamble_def other_line_def section_names_def
      tasks_done_def bugs_found_def fixes_verified_def observations_def next_steps_def
      lit_def suffix_to_prefix)

lemma example_secs_distinct: "distinct (map fst example_secs)"
  using section_names_neq section_names_neq[symmetric] by (simp add: example_secs_def)

lemma example_secs_ok: "list_all section_ok example_secs"
  by (simp add: example_secs_def section_ok_def clean_item_def other_line_def strippable_def
      isspace_def section_names_def
      tasks_done_def bugs_found_def fixes_verified_def observations_def next_steps_def
      lit_def suffix_to_prefix)

lemma example_document:
  "document example_preamble example_secs =
     lit ''# QA log 2024-03-01'' @ [10] @
     [10] @
     heading bugs_found @
     [10] @
     lit ''- Crash on save'' @ [10] @
     lit ''  '' @ [10] @
     lit ''- Typo in UI'' @ [10] @
     [10] @
     heading tasks_done @
     lit ''- Wrote tests'' @ [10] @
     lit ''### Notes'' @ [10] @
     lit ''free text'' @ [10] @
     heading fixes_verified @
     lit ''- Login fixed'' @ [10] @
     heading observations @
     lit ''- Slow start'' @ [10] @
     heading next_steps @
     lit ''- Fix crash'' @ [10] @
     lit ''- Ship''"
  by (simp add: document_def example_preamble_def example_secs_def section_lines_def
      heading_def bullet_def lit_def)

theorem parse_round_trip_witness:
  "list_all other_line example_preamble
   \<and> distinct (map fst example_secs)
   \<and> list_all section_ok example_secs
   \<and> map_of (parse_content (document example_preamble example_secs)) bugs_found =
       Some [lit ''Crash on save'', lit ''Typo in UI'']
   \<and> map_of (parse_content (document example_preamble example_secs)) tasks_done =
       Some [lit ''Wrote tests'']
   \<and> map_of (parse_content (document example_preamble example_secs)) fixes_verified =
       Some [lit ''Login fixed'']
   \<and> map_of (parse_content (document example_preamble example_secs)) observations =
       Some [lit ''Slow start'']
   \<and> map_of (parse_content (document example_preamble example_secs)) next_steps =
       Some [lit ''Fix crash'', lit ''Ship'']"
proof -
  note r = parse_round_trip [OF example_preamble_ok example_secs_distinct example_secs_ok]
  have m: "(bugs_found,
       [Blank [], Bullet (lit ''Crash on save''), Blank (lit ''  ''),
        Bullet (lit ''Typo in UI''), Blank []], []) \<in> set example_secs"
    "(tasks_done, [Bullet (lit ''Wrote tests'')], [lit ''### Notes'', lit ''free text''])
       \<in> set example_secs"
    "(fixes_verified, [Bullet (lit ''Login fixed'')], []) \<in> set example_secs"
    "(observations, [Bullet (lit ''Slow start'')], []) \<in> set example_secs"
    "(next_steps, [Bullet (lit ''Fix crash''), Bullet (lit ''Ship'')], []) \<in> set example_secs"
    by (simp_all add: example_secs_def)
  from r m(1) have r1: "map_of (parse_content (document example_preamble example_secs)) bugs_found =
       Some [lit ''Crash on save'', lit ''Typo in UI'']"
    by fastforce
  from r m(2) have r2: "map_of (parse_content (document example_preamble example_secs)) tasks_done =
       Some [lit ''Wrote tests'']"
    by fastforce
  from r m(3) have r3: "map_of (parse_content (document example_preamble example_secs)) fixes_verified =
       Some [lit ''Login fixed'']"
    by fastforce
  from r m(4) have r4: "map_of (parse_content (document example_preamble example_secs)) observations =
       Some [lit ''Slow start'']"
    by fastforce
  from r m(5) have r5: "map_of (parse_content (document example_preamble example_secs)) next_steps =
       Some [lit ''Fix crash'', lit ''Ship'']"
    by fastforce
  from example_preamble_ok example_secs_distinct example_secs_ok r1 r2 r3 r4 r5
  show ?thesis by (intro conjI)
qed

text \<open>
  The claim as written fails outside these conditions: a bullet whose item ends with the text
  of a heading is taken for that heading, and an item loses the dashes and the white space
  at its two ends.
\<close>

theorem parse_round_trip_counterexample:
  "map_of (parse_content crossed_text) tasks_done = Some [lit ''typo'']
   \<and> map_of (parse_content crossed_text) bugs_found =
       Some [lit ''crash in ### '' @ tasks_done, lit ''typo'']
   \<and> map_of (parse_content crossed_text) fixes_verified = Some [lit ''5 fixed'']
   \<and> map_of (parse_content crossed_text) observations = Some [lit ''o'']
   \<and> map_of (parse_content crossed_text) next_steps = Some [lit ''n'']"
proof -
  have s1: "search_section tasks_done crossed_text = Some (lit ''- typo -'')"
    by (simp add: crossed_text_def heading_def tasks_done_def bugs_found_def lit_def)
  have s2: "search_section bugs_found crossed_text =
      Some (lit ''- crash in ### '' @ tasks_done @ [10] @ lit ''- typo -'')"
    by (simp add: crossed_text_def heading_def tasks_done_def bugs_found_def lit_def)
  have s3: "search_section fixes_verified crossed_text = Some (lit ''- -5 fixed'')"
    by (simp add: crossed_text_def heading_def tasks_done_def bugs_found_def
        fixes_verified_def observations_def lit_def)
  have s4: "search_section observations crossed_text = Some (lit ''- o  '')"
    by (simp add: crossed_text_def heading_def tasks_done_def bugs_found_def
        fixes_verified_def observations_def next_steps_def lit_def)
  have s5: "search_section next_steps crossed_text = Some (lit ''-   n'' @ [10])"
    by (simp add: crossed_text_def heading_def tasks_done_def bugs_found_def
        fixes_verified_def observations_def next_steps_def lit_def)
  have b1: "block_lines (lit ''- typo -'') = [lit ''typo'']"
    by (simp add: block_lines_def strip_def strip_chars_def strip_while_def isspace_def lit_def)
  have b2: "block_lines (lit ''- crash in ### '' @ tasks_done @ [10] @ lit ''- typo -'') =
      [lit ''crash in ### '' @ tasks_done, lit ''typo'']"
    by (simp add: block_lines_def strip_def strip_chars_def strip_while_def isspace_def
        tasks_done_def lit_def)
  have b3: "block_lines (lit ''- -5 fixed'') = [lit ''5 fixed'']"
    by (simp add: block_lines_def strip_def strip_chars_def strip_while_def isspace_def lit_def)
  have b4: "block_lines (lit ''- o  '') = [lit ''o'']"
    by (simp add: block_lines_def strip_def strip_chars_def strip_while_def isspace_def lit_def)
  have b5: "block_lines (lit ''-   n'' @ [10]) = [lit ''n'']"
    by (simp add: block_lines_def strip_def strip_chars_def strip_while_def isspace_def lit_def)
  from s1 b1 have r1: "map_of (parse_content crossed_text) tasks_done = Some [lit ''typo'']"
    by (simp add: map_of_parse_content section_names_mem section_content_def)
  from s2 b2 have r2: "map_of (parse_content crossed_text) bugs_found =
       Some [lit ''crash in ### '' @ tasks_done, lit ''typo'']"
    by (simp add: map_of_parse_content section_names_mem section_content_def)
  from s3 b3 have r3: "map_of (parse_content crossed_text) fixes_verified = Some [lit ''5 fixed'']"
    by (simp add: map_of_parse_content section_names_mem section_content_def)
  from s4 b4 have r4: "map_of (parse_content crossed_text) observations = Some [lit ''o'']"
    by (simp add: map_of_parse_content section_names_mem section_content_def)
  from s5 b5 have r5: "map_of (parse_content crossed_text) next_steps = Some [lit ''n'']"
    by (simp add: map_of_parse_content section_names_mem section_content_def)
  from r1 r2 r3 r4 r5 show ?thesis by (intro conjI)
qed

end
